theory Spec2Isabelle
  imports Complex_Main
begin

section \<open>Patterns and the backtracking matcher of Python's re\<close>

text \<open>
  The parser of \<^verbatim>\<open>cp2k_tools/parser/xyz.py\<close> is two regular expressions and an iterator that
  counts. The expressions are compiled with \<^verbatim>\<open>re.MULTILINE | re.VERBOSE\<close>; what they match is
  decided by Python's backtracking matcher, which is embedded here for the operators the two
  patterns use: character classes, \<^verbatim>\<open>.\<close>, \<^verbatim>\<open>^\<close>, sequence, ordered alternative, the greedy
  \<^verbatim>\<open>*\<close>, \<^verbatim>\<open>+\<close>, \<^verbatim>\<open>?\<close>, \<^verbatim>\<open>{n}\<close>, and named groups. Unnamed groups only bracket a subpattern
  (their captures are never read), so they are the nesting of the syntax tree.

  A text (Python 3 \<^verbatim>\<open>str\<close>) is a \<^typ>\<open>string\<close> whose characters are the code points up to
  U+00FF; a byte buffer is a \<^typ>\<open>string\<close> of bytes. The flag \<open>u\<close> of the matcher is
  \<^verbatim>\<open>is_string\<close>: under a text pattern \<^verbatim>\<open>\s\<close> is Unicode white space, under a bytes pattern
  it is ASCII white space. Up to U+00FF the decimal digits of \<^verbatim>\<open>\d\<close> are \<^verbatim>\<open>0\<close> to \<^verbatim>\<open>9\<close> in
  both modes.
\<close>

datatype item = Ch char | Rng char char | Space | Digit

datatype regex =
    Eps
  | Bol
  | Cls "item list"
  | Dot
  | Seq regex regex
  | Alt regex regex
  | Star regex
  | Plus regex
  | Opt regex
  | Times nat regex
  | Grp string regex

record cursor =
  seen :: string
  todo :: string
  groups :: "(string \<times> string) list"

definition is_space :: "bool \<Rightarrow> char \<Rightarrow> bool" where
  "is_space u c =
     (let n = (of_char c :: nat)
      in (9 \<le> n \<and> n \<le> 13) \<or> n = 32 \<or>
         (u \<and> ((28 \<le> n \<and> n \<le> 31) \<or> n = 133 \<or> n = 160)))"

definition is_digit :: "char \<Rightarrow> bool" where
  "is_digit c = (let n = (of_char c :: nat) in 48 \<le> n \<and> n \<le> 57)"

fun in_item :: "bool \<Rightarrow> item \<Rightarrow> char \<Rightarrow> bool" where
  "in_item u (Ch a) c = (c = a)"
| "in_item u (Rng a b) c = ((of_char a :: nat) \<le> of_char c \<and> (of_char c :: nat) \<le> of_char b)"
| "in_item u Space c = is_space u c"
| "in_item u Digit c = is_digit c"

definition in_class :: "bool \<Rightarrow> item list \<Rightarrow> char \<Rightarrow> bool" where
  "in_class u its c = list_ex (\<lambda>i. in_item u i c) its"

definition advance :: "cursor \<Rightarrow> cursor" where
  "advance c = (case todo c of [] \<Rightarrow> c | x # xs \<Rightarrow> c\<lparr>seen := x # seen c, todo := xs\<rparr>)"

text \<open>\<^verbatim>\<open>^\<close> under \<^verbatim>\<open>re.MULTILINE\<close>: the start of the subject, or just after a newline.\<close>

definition at_line_start :: "cursor \<Rightarrow> bool" where
  "at_line_start c = (case seen c of [] \<Rightarrow> True | x # xs \<Rightarrow> x = CHR ''\<newline>'')"

definition captured :: "cursor \<Rightarrow> cursor \<Rightarrow> string" where
  "captured c c' = take (length (todo c) - length (todo c')) (todo c)"

text \<open>
  The matcher is written with a continuation \<open>k\<close> for the rest of the pattern: an alternative
  or a repetition tries its first choice with \<open>k\<close> behind it and falls back to the next choice
  when that fails, which is the order in which Python backtracks. A greedy repetition tries one
  more round of its body before it tries to leave; a round that consumed nothing leaves
  the loop. Every further round consumes a character, so the fuel (one more than the
  characters left) never runs out.
\<close>

primrec star_loop ::
  "nat \<Rightarrow> ((cursor \<Rightarrow> 'a option) \<Rightarrow> cursor \<Rightarrow> 'a option) \<Rightarrow> (cursor \<Rightarrow> 'a option) \<Rightarrow> cursor \<Rightarrow> 'a option" where
  "star_loop 0 body k c = k c"
| "star_loop (Suc n) body k c =
     (case body (\<lambda>c'. if length (todo c') < length (todo c) then star_loop n body k c' else k c') c of
        Some r \<Rightarrow> Some r
      | None \<Rightarrow> k c)"

primrec times_loop ::
  "nat \<Rightarrow> ((cursor \<Rightarrow> 'a option) \<Rightarrow> cursor \<Rightarrow> 'a option) \<Rightarrow> (cursor \<Rightarrow> 'a option) \<Rightarrow> cursor \<Rightarrow> 'a option" where
  "times_loop 0 body k c = k c"
| "times_loop (Suc n) body k c = body (times_loop n body k) c"

primrec run :: "bool \<Rightarrow> regex \<Rightarrow> (cursor \<Rightarrow> 'a option) \<Rightarrow> cursor \<Rightarrow> 'a option" where
  "run u Eps k c = k c"
| "run u Bol k c = (if at_line_start c then k c else None)"
| "run u (Cls its) k c =
     (case todo c of [] \<Rightarrow> None | x # xs \<Rightarrow> if in_class u its x then k (advance c) else None)"
| "run u Dot k c =
     (case todo c of [] \<Rightarrow> None | x # xs \<Rightarrow> if x \<noteq> CHR ''\<newline>'' then k (advance c) else None)"
| "run u (Seq a b) k c = run u a (run u b k) c"
| "run u (Alt a b) k c = (case run u a k c of Some r \<Rightarrow> Some r | None \<Rightarrow> run u b k c)"
| "run u (Star a) k c = star_loop (Suc (length (todo c))) (run u a) k c"
| "run u (Plus a) k c = run u a (\<lambda>c'. star_loop (Suc (length (todo c'))) (run u a) k c') c"
| "run u (Opt a) k c = (case run u a k c of Some r \<Rightarrow> Some r | None \<Rightarrow> k c)"
| "run u (Times n a) k c = times_loop n (run u a) k c"
| "run u (Grp name a) k c =
     run u a (\<lambda>c'. k (c'\<lparr>groups := (name, captured c c') # groups c'\<rparr>)) c"

primrec cat :: "regex list \<Rightarrow> regex" where
  "cat [] = Eps"
| "cat (r # rs) = Seq r (cat rs)"

subsection \<open>Match objects and finditer\<close>

record rmatch =
  m_start :: nat
  m_end :: nat
  m_groups :: "(string \<times> string) list"

text \<open>
  \<^verbatim>\<open>match.group(name)\<close>. The named groups of both patterns stand outside every alternative and
  repetition, so they take part in every match and the lookup finds them.
\<close>

definition mgroup :: "rmatch \<Rightarrow> string \<Rightarrow> string" where
  "mgroup m name = (case map_of (m_groups m) name of Some s \<Rightarrow> s | None \<Rightarrow> [])"

definition start :: "string \<Rightarrow> cursor" where
  "start s = \<lparr>seen = [], todo = s, groups = []\<rparr>"

text \<open>\<^verbatim>\<open>pattern.match\<close> at a position of the subject: the first way through the pattern, if any.\<close>

definition match_at :: "bool \<Rightarrow> regex \<Rightarrow> cursor \<Rightarrow> cursor option" where
  "match_at u r c = run u r Some c"

text \<open>
  \<^verbatim>\<open>pattern.finditer(subject)\<close>: the leftmost match from the current position, then on from
  its end. The matches, found lazily by Python, are a list here: matching is pure and raises
  nothing. After a match that consumed nothing the scan moves one character on; both patterns
  need at least one character, so that branch is not taken for them.
\<close>

function finditer_from :: "bool \<Rightarrow> regex \<Rightarrow> cursor \<Rightarrow> rmatch list" where
  "finditer_from u r c =
     (case match_at u r c of
        None \<Rightarrow> (case todo c of [] \<Rightarrow> [] | x # xs \<Rightarrow> finditer_from u r (advance c))
      | Some c' \<Rightarrow>
          \<lparr>m_start = length (seen c), m_end = length (seen c'), m_groups = groups c'\<rparr> #
          (if length (todo c') < length (todo c) then finditer_from u r (c'\<lparr>groups := []\<rparr>)
           else (case todo c of [] \<Rightarrow> [] | x # xs \<Rightarrow> finditer_from u r (advance c))))"
  by pat_completeness auto
termination
  by (relation "measure (\<lambda>(u, r, c). length (todo c))") (auto simp: advance_def)

declare finditer_from.simps [simp del]

definition finditer :: "bool \<Rightarrow> regex \<Rightarrow> string \<Rightarrow> rmatch list" where
  "finditer u r s = finditer_from u r (start s)"

section \<open>The two patterns of xyz.py\<close>

text \<open>
  Under \<^verbatim>\<open>re.VERBOSE\<close> white space and \<^verbatim>\<open>#\<close> comments of the pattern text are dropped, except
  inside a character class: the class \<^verbatim>\<open>[E | e]\<close> holds \<^verbatim>\<open>E\<close>, the space, \<^verbatim>\<open>|\<close> and \<^verbatim>\<open>e\<close>, the
  class \<^verbatim>\<open>[\-|\+]\<close> holds \<^verbatim>\<open>-\<close>, \<^verbatim>\<open>|\<close> and \<^verbatim>\<open>+\<close>, and \<^verbatim>\<open>[\- | \+ ]\<close> holds the space as well.
\<close>

definition blank :: regex where
  "blank = Cls [Ch CHR '' '', Ch (CHR 0x09)]"

definition nl :: regex where
  "nl = Cls [Ch CHR ''\<newline>'']"

definition alpha :: regex where
  "alpha = Cls [Rng CHR ''A'' CHR ''Z'', Rng CHR ''a'' CHR ''z'']"

definition alnum :: regex where
  "alnum = Cls [Rng CHR ''A'' CHR ''Z'', Rng CHR ''a'' CHR ''z'', Rng CHR ''0'' CHR ''9'']"

definition digit :: regex where
  "digit = Cls [Digit]"

definition space :: regex where
  "space = Cls [Space]"

definition dot :: regex where
  "dot = Cls [Ch CHR ''.'']"

text \<open>\<^verbatim>\<open>([E | e][+|-]?\d+)\<close>, the exponent of both patterns.\<close>

definition expo :: regex where
  "expo = cat [Cls [Ch CHR ''E'', Ch CHR '' '', Ch CHR ''|'', Ch CHR '' '', Ch CHR ''e''],
               Opt (Cls [Ch CHR ''+'', Ch CHR ''|'', Ch CHR ''-'']),
               Plus digit]"

text \<open>\<^verbatim>\<open>[\-|\+]?  ( \d*[\.]\d+  | \d+[\.]?\d* )  ([E | e][+|-]?\d+)?\<close>, a coordinate of a position line.\<close>

definition pos_float :: regex where
  "pos_float = cat [Opt (Cls [Ch CHR ''-'', Ch CHR ''|'', Ch CHR ''+'']),
                    Alt (cat [Star digit, dot, Plus digit]) (cat [Plus digit, Opt dot, Star digit]),
                    Opt expo]"

definition POS_MATCH_REGEX :: regex where
  "POS_MATCH_REGEX = cat [Bol, Star blank,
      Grp ''sym'' (cat [Plus alpha, Star alnum]), Plus space,
      Grp ''x'' pos_float, Plus blank,
      Grp ''y'' pos_float, Plus blank,
      Grp ''z'' pos_float]"

text \<open>
  In the frame pattern the alternative of the repeated number group separates
  \<^verbatim>\<open>\s+ [\- | \+ ]? (\d* [\.] \d+)\<close> from \<^verbatim>\<open>(\d+ [\.]? \d*) ([E | e][+|-]?\d+)?\<close>: only the first
  form is preceded by white space and a sign.
\<close>

definition frame_number :: regex where
  "frame_number =
     Alt (cat [Plus space,
               Opt (Cls [Ch CHR ''-'', Ch CHR '' '', Ch CHR ''|'', Ch CHR '' '', Ch CHR ''+'', Ch CHR '' '']),
               Star digit, dot, Plus digit])
         (cat [Plus digit, Opt dot, Star digit, Opt expo])"

definition frame_line :: regex where
  "frame_line =
     cat [Alt (cat [Star space,
                    Alt (cat [Plus alpha, Star alnum, Times 3 frame_number])
                        (Cls [Ch CHR ''#'']),
                    Star Dot])
              (Star space),
          nl]"

definition FRAME_MATCH_REGEX :: regex where
  "FRAME_MATCH_REGEX = cat [Bol, Star blank,
      Grp ''natoms'' (Plus (Cls [Rng CHR ''0'' CHR ''9''])), Star blank, nl,
      Grp ''comment'' (Star Dot), nl,
      Grp ''positions'' (Plus frame_line)]"

section \<open>Conversions\<close>

datatype error =
    TypeError_smaller nat nat
  | TypeError_larger nat nat
  | ValueError_float string
  | ValueError_int string
  | ValueError_mmap
  | UnicodeDecodeError

text \<open>
  The two \<^verbatim>\<open>TypeError\<close>s carry the numbers of their messages, \<^verbatim>\<open>_catom\<close> first and \<^verbatim>\<open>_natoms\<close>
  second: "Number of atom entries (\<open>catom\<close>) is smaller (larger) than the number of atoms
  (\<open>natoms\<close>)".
\<close>

fun digits_value :: "nat \<Rightarrow> string \<Rightarrow> nat" where
  "digits_value acc [] = acc"
| "digits_value acc (c # cs) = digits_value (10 * acc + (of_char c - 48)) cs"

text \<open>
  \<^verbatim>\<open>int(s)\<close> for a string of decimal digits, which is all the group \<^verbatim>\<open>natoms\<close> can hold
  (signs, white space and underscores, which \<^verbatim>\<open>int\<close> also reads, cannot occur in it). The
  conversion is the one of the language; the bound that interpreters from Python 3.11 on put on
  the length of the digit string (\<^verbatim>\<open>sys.set_int_max_str_digits\<close>, 4300 digits unless set
  otherwise) is a setting of the interpreter and is left out.
\<close>

definition int_of :: "string \<Rightarrow> error + nat" where
  "int_of s = (if s \<noteq> [] \<and> list_all is_digit s then Inr (digits_value 0 s) else Inl (ValueError_int s))"

definition scale10 :: "rat \<Rightarrow> bool \<Rightarrow> nat \<Rightarrow> rat" where
  "scale10 v neg e = (if neg then v / 10 ^ e else v * 10 ^ e)"

definition exponent_of :: "string \<Rightarrow> (bool \<times> nat) option" where
  "exponent_of s =
     (case s of
        [] \<Rightarrow> Some (False, 0)
      | e # r \<Rightarrow>
          if e = CHR ''e'' \<or> e = CHR ''E'' then
            (let neg = (case r of [] \<Rightarrow> False | x # xs \<Rightarrow> x = CHR ''-'');
                 ds = (case r of [] \<Rightarrow> [] | x # xs \<Rightarrow> if x = CHR ''-'' \<or> x = CHR ''+'' then xs else r)
             in if ds \<noteq> [] \<and> list_all is_digit ds then Some (neg, digits_value 0 ds) else None)
          else None)"

text \<open>
  \<^verbatim>\<open>float(s)\<close> on a captured coordinate: an optional sign, digits with an optional fraction or a
  fraction alone, and an optional exponent \<^verbatim>\<open>e\<close> or \<^verbatim>\<open>E\<close> with an optional sign; anything else
  is a \<^verbatim>\<open>ValueError\<close>. The result is the decimal value the literal denotes, which \<^verbatim>\<open>float\<close>
  rounds to binary64. A captured coordinate starts and ends with a sign, a digit or a dot and holds
  no letter but \<^verbatim>\<open>e\<close> and \<^verbatim>\<open>E\<close>, so the other spellings \<^verbatim>\<open>float\<close> reads (surrounding white
  space, underscores between digits, \<^verbatim>\<open>inf\<close>, \<^verbatim>\<open>nan\<close>) cannot reach it.
\<close>

definition float_of :: "string \<Rightarrow> error + rat" where
  "float_of s =
     (let neg = (case s of [] \<Rightarrow> False | x # xs \<Rightarrow> x = CHR ''-'');
          s1 = (case s of [] \<Rightarrow> [] | x # xs \<Rightarrow> if x = CHR ''-'' \<or> x = CHR ''+'' then xs else s);
          ip = takeWhile is_digit s1;
          s2 = dropWhile is_digit s1;
          fp = (case s2 of [] \<Rightarrow> [] | x # xs \<Rightarrow> if x = CHR ''.'' then takeWhile is_digit xs else []);
          s3 = (case s2 of [] \<Rightarrow> [] | x # xs \<Rightarrow> if x = CHR ''.'' then dropWhile is_digit xs else s2);
          mant = of_nat (digits_value 0 (ip @ fp)) / 10 ^ length fp
      in if ip = [] \<and> fp = [] then Inl (ValueError_float s)
         else (case exponent_of s3 of
                 None \<Rightarrow> Inl (ValueError_float s)
               | Some (eneg, e) \<Rightarrow> Inr (scale10 (if neg then - mant else mant) eneg e)))"

text \<open>\<^verbatim>\<open>bytes.decode('utf8')\<close>, strict: the code points of a well-formed UTF-8 buffer.\<close>

definition cont_byte :: "nat \<Rightarrow> bool" where
  "cont_byte b = (128 \<le> b \<and> b \<le> 191)"

fun utf8_decode :: "nat list \<Rightarrow> nat list option" where
  "utf8_decode [] = Some []"
| "utf8_decode (b0 # r) =
     (if b0 < 128 then map_option ((#) b0) (utf8_decode r)
      else if 194 \<le> b0 \<and> b0 \<le> 223 then
        (case r of
           b1 # r1 \<Rightarrow>
             if cont_byte b1
             then map_option ((#) ((b0 - 192) * 64 + (b1 - 128))) (utf8_decode r1)
             else None
         | _ \<Rightarrow> None)
      else if 224 \<le> b0 \<and> b0 \<le> 239 then
        (case r of
           b1 # b2 # r2 \<Rightarrow>
             if cont_byte b1 \<and> cont_byte b2 \<and> (b0 = 224 \<longrightarrow> 160 \<le> b1) \<and> (b0 = 237 \<longrightarrow> b1 \<le> 159)
             then map_option ((#) ((b0 - 224) * 4096 + (b1 - 128) * 64 + (b2 - 128))) (utf8_decode r2)
             else None
         | _ \<Rightarrow> None)
      else if 240 \<le> b0 \<and> b0 \<le> 244 then
        (case r of
           b1 # b2 # b3 # r3 \<Rightarrow>
             if cont_byte b1 \<and> cont_byte b2 \<and> cont_byte b3 \<and>
                (b0 = 240 \<longrightarrow> 144 \<le> b1) \<and> (b0 = 244 \<longrightarrow> b1 \<le> 143)
             then map_option
                    ((#) ((b0 - 240) * 262144 + (b1 - 128) * 4096 + (b2 - 128) * 64 + (b3 - 128)))
                    (utf8_decode r3)
             else None
         | _ \<Rightarrow> None)
      else None)"

text \<open>A Python 3 string value of the result: a \<^verbatim>\<open>str\<close> (its code points) or a \<^verbatim>\<open>bytes\<close>.\<close>

datatype pystring = PyStr "nat list" | PyBytes string

definition decode :: "string \<Rightarrow> error + nat list" where
  "decode b = (case utf8_decode (map of_char b) of None \<Rightarrow> Inl UnicodeDecodeError | Some t \<Rightarrow> Inr t)"

definition text_of :: "string \<Rightarrow> nat list" where
  "text_of s = map of_char s"

section \<open>XYZParser\<close>

datatype input = Text string | Buffer string | Handle string

text \<open>
  \<^verbatim>\<open>as_byteorstringlike\<close>: a text as it is, flagged \<^verbatim>\<open>True\<close>; a bytes object as it is, flagged
  \<^verbatim>\<open>False\<close>; anything else is a file handle whose content is memory-mapped (\<open>Handle\<close> holds the
  file's bytes; \<^verbatim>\<open>mmap\<close> refuses an empty file).
\<close>

definition as_byteorstringlike :: "input \<Rightarrow> error + (string \<times> bool)" where
  "as_byteorstringlike fh_or_content =
     (case fh_or_content of
        Text s \<Rightarrow> Inr (s, True)
      | Buffer b \<Rightarrow> Inr (b, False)
      | Handle f \<Rightarrow> if f = [] then Inl ValueError_mmap else Inr (f, False))"

type_synonym atom = "pystring \<times> (rat \<times> rat \<times> rat)"

record block_iterator =
  b_string :: bool
  b_it :: "rmatch list"
  b_natoms :: nat
  b_catom :: nat

datatype pull = Yield atom | StopIteration | Raise error

text \<open>
  \<^verbatim>\<open>BlockIterator.__init__\<close>. The flag \<open>b_string\<close> is the type of the pattern that made the
  matches: a group of a bytes pattern is a \<^verbatim>\<open>bytes\<close>.
\<close>

definition BlockIterator :: "bool \<Rightarrow> rmatch list \<Rightarrow> nat \<Rightarrow> block_iterator" where
  "BlockIterator u ms n = \<lparr>b_string = u, b_it = ms, b_natoms = n, b_catom = 0\<rparr>"

text \<open>The returned tuple of \<^verbatim>\<open>__next__\<close>: the symbol as captured, the three coordinates through \<^verbatim>\<open>float\<close>.\<close>

definition entry :: "bool \<Rightarrow> rmatch \<Rightarrow> error + atom" where
  "entry u m =
     (case float_of (mgroup m ''x'') of
        Inl e \<Rightarrow> Inl e
      | Inr x \<Rightarrow>
          (case float_of (mgroup m ''y'') of
             Inl e \<Rightarrow> Inl e
           | Inr y \<Rightarrow>
               (case float_of (mgroup m ''z'') of
                  Inl e \<Rightarrow> Inl e
                | Inr z \<Rightarrow>
                    Inr (if u then PyStr (text_of (mgroup m ''sym'')) else PyBytes (mgroup m ''sym''),
                         (x, y, z)))))"

text \<open>\<^verbatim>\<open>BlockIterator.__next__\<close>: the outcome of one pull and the iterator after it.\<close>

definition BlockIterator_next :: "block_iterator \<Rightarrow> pull \<times> block_iterator" where
  "BlockIterator_next b =
     (case b_it b of
        [] \<Rightarrow>
          (if b_catom b = b_natoms b then (StopIteration, b)
           else (Raise (TypeError_smaller (b_catom b) (b_natoms b)), b))
      | m # ms \<Rightarrow>
          (let b' = b\<lparr>b_it := ms, b_catom := b_catom b + 1\<rparr>
           in if b_catom b' > b_natoms b' then (Raise (TypeError_larger (b_catom b') (b_natoms b')), b')
              else (case entry (b_string b) m of
                      Inl e \<Rightarrow> (Raise e, b')
                    | Inr a \<Rightarrow> (Yield a, b'))))"

text \<open>\<^verbatim>\<open>list(atomiter)\<close>: pull until the iterator stops or raises.\<close>

function list_of :: "block_iterator \<Rightarrow> error + atom list" where
  "list_of b =
     (case BlockIterator_next b of
        (StopIteration, b') \<Rightarrow> Inr []
      | (Raise e, b') \<Rightarrow> Inl e
      | (Yield a, b') \<Rightarrow> (case list_of b' of Inl e \<Rightarrow> Inl e | Inr as \<Rightarrow> Inr (a # as)))"
  by pat_completeness auto
termination
  by (relation "measure (\<lambda>b. length (b_it b))")
    (auto simp: BlockIterator_next_def Let_def split: list.splits if_splits sum.splits)

declare list_of.simps [simp del]

type_synonym frame = "nat \<times> nat list \<times> block_iterator"

text \<open>
  The body of the loop of \<^verbatim>\<open>parse_iter\<close> for one frame match: \<^verbatim>\<open>int\<close> of the atom count, the
  comment (decoded when the content is bytes), and the iterator over the position lines of the
  block.
\<close>

definition frame_of :: "bool \<Rightarrow> rmatch \<Rightarrow> error + frame" where
  "frame_of is_string block =
     (case int_of (mgroup block ''natoms'') of
        Inl e \<Rightarrow> Inl e
      | Inr natoms \<Rightarrow>
          (case (if is_string then Inr (text_of (mgroup block ''comment''))
                 else decode (mgroup block ''comment'')) of
             Inl e \<Rightarrow> Inl e
           | Inr comment \<Rightarrow>
               Inr (natoms, comment,
                    BlockIterator is_string
                      (finditer is_string POS_MATCH_REGEX (mgroup block ''positions'')) natoms)))"

text \<open>
  A generator is the list of what it yields; one that raises ends with the error (\<open>Inl\<close>), and
  yields nothing after it.
\<close>

fun frames_of :: "bool \<Rightarrow> rmatch list \<Rightarrow> (error + frame) list" where
  "frames_of is_string [] = []"
| "frames_of is_string (block # blocks) =
     (case frame_of is_string block of
        Inl e \<Rightarrow> [Inl e]
      | Inr f \<Rightarrow> Inr f # frames_of is_string blocks)"

definition parse_iter :: "input \<Rightarrow> (error + frame) list" where
  "parse_iter fh_or_string =
     (case as_byteorstringlike fh_or_string of
        Inl e \<Rightarrow> [Inl e]
      | Inr (content, is_string) \<Rightarrow>
          frames_of is_string (finditer is_string FRAME_MATCH_REGEX content))"

record frame_record =
  natoms :: nat
  comment :: "nat list"
  atoms :: "atom list"

text \<open>
  The list comprehension of \<^verbatim>\<open>parse\<close>: each frame is taken from the generator and its atoms are
  listed before the next frame is asked for; the first exception ends the call.
\<close>

fun collect :: "(error + frame) list \<Rightarrow> error + frame_record list" where
  "collect [] = Inr []"
| "collect (Inl e # fs) = Inl e"
| "collect (Inr (n, c, atomiter) # fs) =
     (case list_of atomiter of
        Inl e \<Rightarrow> Inl e
      | Inr as \<Rightarrow>
          (case collect fs of
             Inl e \<Rightarrow> Inl e
           | Inr rs \<Rightarrow> Inr (\<lparr>natoms = n, comment = c, atoms = as\<rparr> # rs)))"

definition parse :: "input \<Rightarrow> error + frame_record list" where
  "parse fh_or_string = collect (parse_iter fh_or_string)"

section \<open>Notions of the claims and of their proofs\<close>

text \<open>
  The iterator after \<open>k\<close> pulls of a caller, whatever their outcomes; a pull that reports a
  count mismatch; an iterator whose entries all pass \<^verbatim>\<open>float\<close>; the cursor at a position of a
  subject and the text of a match; the UTF-8 bytes of a text. The relation \<open>sem\<close> holds of every
  way through a pattern, in any order of preference: what the matcher returns is one of them.
\<close>

definition pulls :: "nat \<Rightarrow> block_iterator \<Rightarrow> block_iterator" where
  "pulls k b = ((\<lambda>b. snd (BlockIterator_next b)) ^^ k) b"

definition count_mismatch :: "pull \<Rightarrow> bool" where
  "count_mismatch p =
     (case p of
        Raise (TypeError_smaller i j) \<Rightarrow> True
      | Raise (TypeError_larger i j) \<Rightarrow> True
      | _ \<Rightarrow> False)"

definition converts :: "block_iterator \<Rightarrow> bool" where
  "converts b = list_all (\<lambda>m. \<not> isl (entry (b_string b) m)) (b_it b)"

inductive sem :: "bool \<Rightarrow> regex \<Rightarrow> cursor \<Rightarrow> cursor \<Rightarrow> bool" for u :: bool where
  sem_Eps: "sem u Eps c c"
| sem_Bol: "at_line_start c \<Longrightarrow> sem u Bol c c"
| sem_Cls: "todo c = x # xs \<Longrightarrow> in_class u its x \<Longrightarrow> sem u (Cls its) c (advance c)"
| sem_Dot: "todo c = x # xs \<Longrightarrow> x \<noteq> CHR ''\<newline>'' \<Longrightarrow> sem u Dot c (advance c)"
| sem_Seq: "sem u a c c1 \<Longrightarrow> sem u b c1 c2 \<Longrightarrow> sem u (Seq a b) c c2"
| sem_AltL: "sem u a c c1 \<Longrightarrow> sem u (Alt a b) c c1"
| sem_AltR: "sem u b c c1 \<Longrightarrow> sem u (Alt a b) c c1"
| sem_Star0: "sem u (Star a) c c"
| sem_StarS: "sem u a c c1 \<Longrightarrow> sem u (Star a) c1 c2 \<Longrightarrow> sem u (Star a) c c2"
| sem_Plus: "sem u a c c1 \<Longrightarrow> sem u (Star a) c1 c2 \<Longrightarrow> sem u (Plus a) c c2"
| sem_Opt0: "sem u (Opt a) c c"
| sem_OptS: "sem u a c c1 \<Longrightarrow> sem u (Opt a) c c1"
| sem_Times0: "sem u (Times 0 a) c c"
| sem_TimesS: "sem u a c c1 \<Longrightarrow> sem u (Times n a) c1 c2 \<Longrightarrow> sem u (Times (Suc n) a) c c2"
| sem_Grp: "sem u a c c1 \<Longrightarrow> sem u (Grp name a) c (c1\<lparr>groups := (name, captured c c1) # groups c1\<rparr>)"

definition moved :: "cursor \<Rightarrow> string \<Rightarrow> cursor \<Rightarrow> bool" where
  "moved c w c' = (todo c = w @ todo c' \<and> seen c' = rev w @ seen c)"

primrec grp_free :: "regex \<Rightarrow> bool" where
  "grp_free Eps = True"
| "grp_free Bol = True"
| "grp_free (Cls its) = True"
| "grp_free Dot = True"
| "grp_free (Seq a b) = (grp_free a \<and> grp_free b)"
| "grp_free (Alt a b) = (grp_free a \<and> grp_free b)"
| "grp_free (Star a) = grp_free a"
| "grp_free (Plus a) = grp_free a"
| "grp_free (Opt a) = grp_free a"
| "grp_free (Times n a) = grp_free a"
| "grp_free (Grp name a) = False"

definition cursor_at :: "string \<Rightarrow> nat \<Rightarrow> cursor" where
  "cursor_at s p = \<lparr>seen = rev (take p s), todo = drop p s, groups = []\<rparr>"

definition matched_text :: "string \<Rightarrow> rmatch \<Rightarrow> string" where
  "matched_text s m = take (m_end m - m_start m) (drop (m_start m) s)"

definition utf8_encode :: "string \<Rightarrow> string" where
  "utf8_encode s =
     concat (map (\<lambda>c. let n = (of_char c :: nat)
                       in if n < 128 then [c]
                          else [char_of (192 + n div 64), char_of (128 + n mod 64)]) s)"

section \<open>Lemmas\<close>

lemma next_state:
  "snd (BlockIterator_next b) = (case b_it b of [] \<Rightarrow> b | m # ms \<Rightarrow> b\<lparr>b_it := ms, b_catom := b_catom b + 1\<rparr>)"
  by (simp add: BlockIterator_next_def Let_def split: list.splits sum.splits)

lemma pulls_state:
  "k \<le> length (b_it b) \<Longrightarrow> pulls k b = b\<lparr>b_it := drop k (b_it b), b_catom := b_catom b + k\<rparr>"
proof (induction k)
  case 0
  then show ?case by (simp add: pulls_def)
next
  case (Suc k)
  then have k: "pulls k b = b\<lparr>b_it := drop k (b_it b), b_catom := b_catom b + k\<rparr>" by simp
  from Suc.prems obtain m ms where d: "drop k (b_it b) = m # ms"
    by (cases "drop k (b_it b)") auto
  then have "drop (Suc k) (b_it b) = ms"
    by (metis drop_Suc tl_drop list.sel(3))
  with k d show ?case
    by (simp add: pulls_def next_state)
qed

lemma pull_in_range:
  assumes "k < length (b_it b)" "b_catom b + k < b_natoms b"
  shows "fst (BlockIterator_next (pulls k b)) =
           (case entry (b_string b) (b_it b ! k) of Inl e \<Rightarrow> Raise e | Inr a \<Rightarrow> Yield a)"
proof -
  from assms obtain ms where d: "drop k (b_it b) = (b_it b ! k) # ms"
    by (metis Cons_nth_drop_Suc)
  with assms show ?thesis
    by (simp add: pulls_state BlockIterator_next_def Let_def split: sum.splits)
qed

lemma pull_beyond:
  assumes "k < length (b_it b)" "b_natoms b \<le> b_catom b + k"
  shows "fst (BlockIterator_next (pulls k b)) = Raise (TypeError_larger (b_catom b + k + 1) (b_natoms b))"
proof -
  from assms obtain ms where d: "drop k (b_it b) = (b_it b ! k) # ms"
    by (metis Cons_nth_drop_Suc)
  with assms show ?thesis
    by (simp add: pulls_state BlockIterator_next_def Let_def split: sum.splits)
qed

lemma pull_exhausted:
  assumes "b_catom b + length (b_it b) \<noteq> b_natoms b"
  shows "fst (BlockIterator_next (pulls (length (b_it b)) b)) =
           Raise (TypeError_smaller (b_catom b + length (b_it b)) (b_natoms b))"
  using assms by (simp add: pulls_state BlockIterator_next_def)

lemma entry_error: "entry u m = Inl e \<Longrightarrow> \<exists>s. e = ValueError_float s"
  by (auto simp: entry_def float_of_def Let_def split: sum.splits option.splits if_splits)

lemma entry_outcome_no_mismatch:
  "\<not> count_mismatch (case entry u m of Inl e \<Rightarrow> Raise e | Inr a \<Rightarrow> Yield a)"
  by (cases "entry u m") (auto simp: count_mismatch_def dest: entry_error)

lemma list_of_unfold:
  "list_of b =
     (case BlockIterator_next b of
        (StopIteration, b') \<Rightarrow> Inr []
      | (Raise e, b') \<Rightarrow> Inl e
      | (Yield a, b') \<Rightarrow> (case list_of b' of Inl e \<Rightarrow> Inl e | Inr as \<Rightarrow> Inr (a # as)))"
  by (rule list_of.simps)

lemma list_of_converting:
  assumes "\<forall>m\<in>set ms. \<not> isl (entry u m)" and "k \<le> n"
  shows "list_of \<lparr>b_string = u, b_it = ms, b_natoms = n, b_catom = k\<rparr> =
           (if k + length ms = n then Inr (map (\<lambda>m. projr (entry u m)) ms)
            else if k + length ms < n then Inl (TypeError_smaller (k + length ms) n)
            else Inl (TypeError_larger (n + 1) n))"
  using assms
proof (induction ms arbitrary: k)
  case Nil
  then show ?case
    by (subst list_of_unfold) (auto simp: BlockIterator_next_def)
next
  case (Cons m ms)
  then obtain a where a: "entry u m = Inr a" by (cases "entry u m") auto
  have ih: "list_of \<lparr>b_string = u, b_it = ms, b_natoms = n, b_catom = Suc k\<rparr> =
           (if Suc k + length ms = n then Inr (map (\<lambda>m. projr (entry u m)) ms)
            else if Suc k + length ms < n then Inl (TypeError_smaller (Suc k + length ms) n)
            else Inl (TypeError_larger (n + 1) n))"
    if "Suc k \<le> n" using Cons that by simp
  show ?case
  proof (cases "n \<le> k")
    case True
    then show ?thesis
      using Cons.prems by (subst list_of_unfold) (simp add: BlockIterator_next_def Let_def)
  next
    case False
    then show ?thesis
      by (subst list_of_unfold) (auto simp add: BlockIterator_next_def Let_def a ih)
  qed
qed

lemma list_of_Inr_counts:
  "list_of b = Inr as \<Longrightarrow> b_catom b + length (b_it b) = b_natoms b"
proof (induction "b_it b" arbitrary: b as)
  case Nil
  from Nil(2) Nil(1) [symmetric] show ?case
    by (subst (asm) list_of_unfold) (auto simp: BlockIterator_next_def split: if_splits)
next
  case (Cons m ms)
  let ?b' = "b\<lparr>b_it := ms, b_catom := b_catom b + 1\<rparr>"
  from Cons.prems Cons.hyps(2) [symmetric]
  obtain as' where "list_of ?b' = Inr as'"
    by (subst (asm) list_of_unfold)
      (auto simp: BlockIterator_next_def Let_def split: if_splits sum.splits)
  moreover have "ms = b_it ?b'" by simp
  ultimately have "b_catom ?b' + length (b_it ?b') = b_natoms ?b'"
    by (rule Cons.hyps(1) [rotated])
  with Cons.hyps(2) [symmetric] show ?case by simp
qed

lemma frames_of_frame:
  "Inr (n, c, b) \<in> set (frames_of u blocks) \<Longrightarrow> b_natoms b = n \<and> b_catom b = 0 \<and> b_string b = u"
proof (induction blocks)
  case Nil
  then show ?case by simp
next
  case (Cons block blocks)
  then show ?case
    by (auto simp: frame_of_def BlockIterator_def split: sum.splits if_splits)
qed

lemma parse_iter_frame:
  "Inr (n, c, b) \<in> set (parse_iter inp) \<Longrightarrow> b_natoms b = n \<and> b_catom b = 0"
  by (auto simp: parse_iter_def split: sum.splits dest: frames_of_frame)

lemma collect_Inr_all:
  "collect fs = Inr rs \<Longrightarrow> Inr (n, c, b) \<in> set fs \<Longrightarrow> \<exists>as. list_of b = Inr as"
proof (induction fs arbitrary: rs rule: collect.induct)
  case 1
  then show ?case by simp
next
  case (2 e fs)
  then show ?case by simp
next
  case (3 n' c' atomiter fs)
  then show ?case by (auto split: sum.splits)
qed

lemma collect_first_error:
  assumes "\<forall>f\<in>set good. \<not> isl (list_of (snd (snd f)))" and "list_of b = Inl e"
  shows "collect (map Inr good @ Inr (n, c, b) # rest) = Inl e"
  using assms
proof (induction good)
  case Nil
  then show ?case by simp
next
  case (Cons f good)
  obtain n' c' b' where f: "f = (n', c', b')" by (cases f)
  with Cons show ?case by (auto split: sum.splits)
qed

text \<open>
  The count check itself, for every frame the scan yields. The pull that finds the matches
  exhausted before the declared count raises the \<^verbatim>\<open>TypeError\<close> "smaller"; \<^verbatim>\<open>list(atoms)\<close> gets as
  far as that pull when the entries before it convert.
\<close>

lemma exhausted_pull_smaller:
  assumes "Inr (n, c, b) \<in> set (parse_iter inp)" and "length (b_it b) < n"
  shows "fst (BlockIterator_next (pulls (length (b_it b)) b)) =
           Raise (TypeError_smaller (length (b_it b)) n) \<and>
         (converts b \<longrightarrow> list_of b = Inl (TypeError_smaller (length (b_it b)) n))"
proof -
  from assms(1) have b: "b_natoms b = n" "b_catom b = 0" by (auto dest: parse_iter_frame)
  with assms(2) pull_exhausted [of b]
  have "fst (BlockIterator_next (pulls (length (b_it b)) b)) =
           Raise (TypeError_smaller (length (b_it b)) n)"
    by simp
  moreover have "list_of b = Inl (TypeError_smaller (length (b_it b)) n)" if "converts b"
  proof -
    have "b = \<lparr>b_string = b_string b, b_it = b_it b, b_natoms = n, b_catom = 0\<rparr>"
      using b by simp
    then have "list_of b = list_of \<lparr>b_string = b_string b, b_it = b_it b, b_natoms = n, b_catom = 0\<rparr>"
      by simp
    also have "\<dots> = Inl (TypeError_smaller (length (b_it b)) n)"
      using that assms(2) by (subst list_of_converting) (auto simp: converts_def list_all_iff)
    finally show ?thesis .
  qed
  ultimately show ?thesis by simp
qed

text \<open>
  The pulls before the one that detects a disagreement return their entries, or the
  \<^verbatim>\<open>ValueError\<close> of \<^verbatim>\<open>float\<close> on their entries, and never a count mismatch.
\<close>

lemma pulls_before_mismatch:
  assumes "Inr (n, c, b) \<in> set (parse_iter inp)" and "length (b_it b) \<noteq> n"
  shows "(\<forall>k<min (length (b_it b)) n.
            fst (BlockIterator_next (pulls k b)) =
              (case entry (b_string b) (b_it b ! k) of Inl e \<Rightarrow> Raise e | Inr a \<Rightarrow> Yield a) \<and>
            \<not> count_mismatch (fst (BlockIterator_next (pulls k b)))) \<and>
         fst (BlockIterator_next (pulls (min (length (b_it b)) n) b)) =
           (if length (b_it b) < n then Raise (TypeError_smaller (length (b_it b)) n)
            else Raise (TypeError_larger (n + 1) n))"
proof -
  from assms(1) have b: "b_natoms b = n" "b_catom b = 0" by (auto dest: parse_iter_frame)
  have early: "fst (BlockIterator_next (pulls k b)) =
              (case entry (b_string b) (b_it b ! k) of Inl e \<Rightarrow> Raise e | Inr a \<Rightarrow> Yield a)"
    if "k < min (length (b_it b)) n" for k
    using that b pull_in_range [of k b] by simp
  have last: "fst (BlockIterator_next (pulls (min (length (b_it b)) n) b)) =
           (if length (b_it b) < n then Raise (TypeError_smaller (length (b_it b)) n)
            else Raise (TypeError_larger (n + 1) n))"
  proof (cases "length (b_it b) < n")
    case True
    with b pull_exhausted [of b] show ?thesis by (simp add: min_def)
  next
    case False
    with assms(2) have "n < length (b_it b)" by simp
    with b pull_beyond [of n b] show ?thesis by (simp add: min_def)
  qed
  from early last show ?thesis
    by (simp add: entry_outcome_no_mismatch)
qed

text \<open>
  \<^verbatim>\<open>parse\<close> returns no list when the count of a yielded frame disagrees; the error is the count
  mismatch of that frame when everything before it lists without error and its entries convert.
\<close>

lemma mismatch_is_error:
  assumes "Inr (n, c, b) \<in> set (parse_iter inp)" and "length (b_it b) \<noteq> n"
  shows "isl (parse inp) \<and>
         (\<forall>good rest.
            parse_iter inp = map Inr good @ Inr (n, c, b) # rest \<and>
            (\<forall>f\<in>set good. \<not> isl (list_of (snd (snd f)))) \<and> converts b \<longrightarrow>
            parse inp = Inl (if length (b_it b) < n then TypeError_smaller (length (b_it b)) n
                             else TypeError_larger (n + 1) n))"
proof -
  from assms(1) have b: "b_natoms b = n" "b_catom b = 0" by (auto dest: parse_iter_frame)
  have no_list: "list_of b \<noteq> Inr as" for as
    using list_of_Inr_counts [of b as] b assms(2) by auto
  have "isl (parse inp)"
  proof (cases "parse inp")
    case (Inl e)
    then show ?thesis by simp
  next
    case (Inr rs)
    then have "collect (parse_iter inp) = Inr rs" by (simp add: parse_def)
    from collect_Inr_all [OF this assms(1)] no_list show ?thesis by blast
  qed
  moreover have "parse inp = Inl (if length (b_it b) < n then TypeError_smaller (length (b_it b)) n
                             else TypeError_larger (n + 1) n)"
    if split: "parse_iter inp = map Inr good @ Inr (n, c, b) # rest"
      and good: "\<forall>f\<in>set good. \<not> isl (list_of (snd (snd f)))" and conv: "converts b"
    for good rest
  proof -
    have "b = \<lparr>b_string = b_string b, b_it = b_it b, b_natoms = n, b_catom = 0\<rparr>"
      using b by simp
    then have "list_of b = list_of \<lparr>b_string = b_string b, b_it = b_it b, b_natoms = n, b_catom = 0\<rparr>"
      by simp
    also have "\<dots> = Inl (if length (b_it b) < n then TypeError_smaller (length (b_it b)) n
                             else TypeError_larger (n + 1) n)"
      using conv assms(2) by (subst list_of_converting) (auto simp: converts_def list_all_iff)
    finally have "list_of b = Inl (if length (b_it b) < n then TypeError_smaller (length (b_it b)) n
                             else TypeError_larger (n + 1) n)" .
    from collect_first_error [OF good this] split show ?thesis by (simp add: parse_def)
  qed
  ultimately show ?thesis by blast
qed

lemma star_loop_sound:
  fixes k :: "cursor \<Rightarrow> 'a option"
  assumes body: "\<And>(k :: cursor \<Rightarrow> 'a option) c x. run u a k c = Some x \<Longrightarrow> \<exists>c'. sem u a c c' \<and> k c' = Some x"
  shows "star_loop n (run u a) k c = Some x \<Longrightarrow> \<exists>c'. sem u (Star a) c c' \<and> k c' = Some x"
proof (induction n arbitrary: c)
  case 0
  then show ?case by (auto intro: sem_Star0)
next
  case (Suc n)
  let ?k' = "\<lambda>c'. if length (todo c') < length (todo c) then star_loop n (run u a) k c' else k c'"
  show ?case
  proof (cases "run u a ?k' c")
    case None
    with Suc.prems show ?thesis by (auto intro: sem_Star0)
  next
    case (Some y)
    with Suc.prems have "y = x" by simp
    with Some body obtain c1 where c1: "sem u a c c1" "?k' c1 = Some x" by blast
    show ?thesis
    proof (cases "length (todo c1) < length (todo c)")
      case True
      with c1 have "star_loop n (run u a) k c1 = Some x" by simp
      from Suc.IH [OF this] obtain c2 where "sem u (Star a) c1 c2" "k c2 = Some x" by blast
      with c1 show ?thesis by (blast intro: sem_StarS)
    next
      case False
      with c1 have "k c1 = Some x" by simp
      with c1 show ?thesis by (blast intro: sem_StarS sem_Star0)
    qed
  qed
qed

lemma times_loop_sound:
  fixes k :: "cursor \<Rightarrow> 'a option"
  assumes body: "\<And>(k :: cursor \<Rightarrow> 'a option) c x. run u a k c = Some x \<Longrightarrow> \<exists>c'. sem u a c c' \<and> k c' = Some x"
  shows "times_loop n (run u a) k c = Some x \<Longrightarrow> \<exists>c'. sem u (Times n a) c c' \<and> k c' = Some x"
proof (induction n arbitrary: c k)
  case 0
  then show ?case by (auto intro: sem_Times0)
next
  case (Suc n)
  then have "run u a (times_loop n (run u a) k) c = Some x" by simp
  from body [OF this] obtain c1 where c1: "sem u a c c1" "times_loop n (run u a) k c1 = Some x" by blast
  from Suc.IH [OF c1(2)] c1(1) show ?case by (blast intro: sem_TimesS)
qed

lemma run_sound:
  "run u r k c = Some x \<Longrightarrow> \<exists>c'. sem u r c c' \<and> k c' = Some x"
proof (induction r arbitrary: k c x)
  case Eps
  then show ?case by (auto intro: sem_Eps)
next
  case Bol
  then show ?case by (auto intro: sem_Bol split: if_splits)
next
  case (Cls its)
  then show ?case by (auto intro: sem_Cls split: list.splits if_splits)
next
  case Dot
  then show ?case by (auto intro: sem_Dot split: list.splits if_splits)
next
  case (Seq a b)
  from Seq.prems have "run u a (run u b k) c = Some x" by simp
  from Seq.IH(1) [OF this] obtain c1 where c1: "sem u a c c1" "run u b k c1 = Some x" by blast
  from Seq.IH(2) [OF c1(2)] c1(1) show ?case by (blast intro: sem_Seq)
next
  case (Alt a b)
  show ?case
  proof (cases "run u a k c")
    case None
    with Alt.prems have "run u b k c = Some x" by simp
    from Alt.IH(2) [OF this] show ?thesis by (blast intro: sem_AltR)
  next
    case (Some y)
    with Alt.prems have "run u a k c = Some x" by simp
    from Alt.IH(1) [OF this] show ?thesis by (blast intro: sem_AltL)
  qed
next
  case (Star a)
  from Star.prems have "star_loop (Suc (length (todo c))) (run u a) k c = Some x" by simp
  from star_loop_sound [OF Star.IH this] show ?case .
next
  case (Plus a)
  from Plus.prems
  have "run u a (\<lambda>c'. star_loop (Suc (length (todo c'))) (run u a) k c') c = Some x" by simp
  from Plus.IH [OF this] obtain c1
    where c1: "sem u a c c1" "star_loop (Suc (length (todo c1))) (run u a) k c1 = Some x" by blast
  from star_loop_sound [OF Plus.IH c1(2)] c1(1) show ?case by (blast intro: sem_Plus)
next
  case (Opt a)
  show ?case
  proof (cases "run u a k c")
    case None
    with Opt.prems show ?thesis by (auto intro: sem_Opt0)
  next
    case (Some y)
    with Opt.prems have "run u a k c = Some x" by simp
    from Opt.IH [OF this] show ?thesis by (blast intro: sem_OptS)
  qed
next
  case (Times n a)
  from Times.prems have "times_loop n (run u a) k c = Some x" by simp
  from times_loop_sound [OF Times.IH this] show ?case .
next
  case (Grp name a)
  from Grp.prems
  have "run u a (\<lambda>c'. k (c'\<lparr>groups := (name, captured c c') # groups c'\<rparr>)) c = Some x" by simp
  from Grp.IH [OF this] show ?case by (blast intro: sem_Grp)
qed

lemma moved_refl: "moved c [] c"
  by (simp add: moved_def)

lemma moved_trans: "moved c w1 c1 \<Longrightarrow> moved c1 w2 c2 \<Longrightarrow> moved c (w1 @ w2) c2"
  by (simp add: moved_def)

lemma moved_advance: "todo c = x # xs \<Longrightarrow> moved c [x] (advance c)"
  by (simp add: moved_def advance_def)

lemma moved_groups [simp]:
  "moved (c\<lparr>groups := g\<rparr>) w c' = moved c w c'" "moved c w (c'\<lparr>groups := g\<rparr>) = moved c w c'"
  by (simp_all add: moved_def)

lemma moved_captured: "moved c w c' \<Longrightarrow> captured c c' = w"
  by (simp add: moved_def captured_def)

lemma moved_length: "moved c w c' \<Longrightarrow> length (todo c) = length w + length (todo c')"
  by (simp add: moved_def)

lemma sem_span: "sem u r c c' \<Longrightarrow> \<exists>w. moved c w c'"
proof (induction rule: sem.induct)
  case (sem_Cls c x xs its)
  then show ?case by (blast intro: moved_advance)
next
  case (sem_Dot c x xs)
  then show ?case by (blast intro: moved_advance)
qed (auto intro: moved_refl moved_trans)

lemma sem_grp_free: "sem u r c c' \<Longrightarrow> grp_free r \<Longrightarrow> groups c' = groups c"
  by (induction rule: sem.induct) (auto simp: advance_def split: list.splits)

inductive_cases sem_EpsE: "sem u Eps c c'"

inductive_cases sem_BolE: "sem u Bol c c'"

inductive_cases sem_ClsE: "sem u (Cls its) c c'"

inductive_cases sem_DotE: "sem u Dot c c'"

inductive_cases sem_SeqE: "sem u (Seq a b) c c'"

inductive_cases sem_AltE: "sem u (Alt a b) c c'"

inductive_cases sem_PlusE: "sem u (Plus a) c c'"

inductive_cases sem_OptE: "sem u (Opt a) c c'"

inductive_cases sem_GrpE: "sem u (Grp name a) c c'"

inductive_cases sem_Times0E: "sem u (Times 0 a) c c'"

inductive_cases sem_TimesSE: "sem u (Times (Suc n) a) c c'"

lemma sem_Star_invariant:
  assumes "sem u (Star a) c c'" and "P c" and "\<And>c1 c2. P c1 \<Longrightarrow> sem u a c1 c2 \<Longrightarrow> P c2"
  shows "P c'"
  using assms
proof (induction "Star a" c c' rule: sem.induct)
  case (sem_Star0 c)
  then show ?case by simp
next
  case (sem_StarS c c1 c2)
  then show ?case by blast
qed

text \<open>A repeated character class moves over characters of the class only.\<close>

lemma sem_Star_Cls:
  assumes "sem u (Star (Cls its)) c c'"
  shows "\<exists>w. moved c w c' \<and> (\<forall>x\<in>set w. in_class u its x) \<and> groups c' = groups c"
proof (rule sem_Star_invariant [OF assms])
  show "\<exists>w. moved c w c \<and> (\<forall>x\<in>set w. in_class u its x) \<and> groups c = groups c"
    by (rule exI [of _ "[]"]) (simp add: moved_refl)
next
  fix c1 c2
  assume "\<exists>w. moved c w c1 \<and> (\<forall>x\<in>set w. in_class u its x) \<and> groups c1 = groups c"
    and step: "sem u (Cls its) c1 c2"
  then obtain w where w: "moved c w c1" "\<forall>x\<in>set w. in_class u its x" "groups c1 = groups c"
    by blast
  from step obtain x xs where x: "todo c1 = x # xs" "in_class u its x" "c2 = advance c1"
    by (auto elim: sem_ClsE)
  from w(1) x(1) x(3) have "moved c (w @ [x]) c2"
    by (blast intro: moved_trans moved_advance)
  moreover from x w(3) have "groups c2 = groups c" by (simp add: advance_def)
  ultimately show "\<exists>w. moved c w c2 \<and> (\<forall>x\<in>set w. in_class u its x) \<and> groups c2 = groups c"
    using w(2) x(2) by (intro exI [of _ "w @ [x]"]) simp
qed

lemma sem_Plus_Cls:
  assumes "sem u (Plus (Cls its)) c c'"
  shows "\<exists>w. moved c w c' \<and> w \<noteq> [] \<and> (\<forall>x\<in>set w. in_class u its x) \<and> groups c' = groups c"
proof -
  from assms obtain c1 where c1: "sem u (Cls its) c c1" "sem u (Star (Cls its)) c1 c'"
    by (auto elim: sem_PlusE)
  from c1(1) obtain x xs where x: "todo c = x # xs" "in_class u its x" "c1 = advance c"
    by (auto elim: sem_ClsE)
  from sem_Star_Cls [OF c1(2)] obtain w
    where w: "moved c1 w c'" "\<forall>x\<in>set w. in_class u its x" "groups c' = groups c1" by blast
  from x w(1) have "moved c (x # w) c'"
    using moved_trans [OF moved_advance [OF x(1)], of w c'] by simp
  moreover from x w(3) have "groups c' = groups c" by (simp add: advance_def)
  ultimately show ?thesis
    using w(2) x(2) by (intro exI [of _ "x # w"]) simp
qed

lemma sem_Star_Dot:
  assumes "sem u (Star Dot) c c'"
  shows "\<exists>w. moved c w c' \<and> CHR ''\<newline>'' \<notin> set w \<and> groups c' = groups c"
proof (rule sem_Star_invariant [OF assms])
  show "\<exists>w. moved c w c \<and> CHR ''\<newline>'' \<notin> set w \<and> groups c = groups c"
    by (rule exI [of _ "[]"]) (simp add: moved_refl)
next
  fix c1 c2
  assume "\<exists>w. moved c w c1 \<and> CHR ''\<newline>'' \<notin> set w \<and> groups c1 = groups c"
    and step: "sem u Dot c1 c2"
  then obtain w where w: "moved c w c1" "CHR ''\<newline>'' \<notin> set w" "groups c1 = groups c"
    by blast
  from step obtain x xs where x: "todo c1 = x # xs" "x \<noteq> CHR ''\<newline>''" "c2 = advance c1"
    by (auto elim: sem_DotE)
  from w(1) x(1) x(3) have "moved c (w @ [x]) c2"
    by (blast intro: moved_trans moved_advance)
  moreover from x w(3) have "groups c2 = groups c" by (simp add: advance_def)
  ultimately show "\<exists>w. moved c w c2 \<and> CHR ''\<newline>'' \<notin> set w \<and> groups c2 = groups c"
    using w(2) x(2) by (intro exI [of _ "w @ [x]"]) simp
qed

lemma sem_nl:
  assumes "sem u nl c c'"
  shows "moved c [CHR ''\<newline>''] c' \<and> groups c' = groups c"
proof -
  from assms obtain x xs where x: "todo c = x # xs" "in_class u [Ch CHR ''\<newline>''] x" "c' = advance c"
    by (auto simp: nl_def elim: sem_ClsE)
  then have "x = CHR ''\<newline>''" by (simp add: in_class_def)
  with x show ?thesis by (simp add: moved_def advance_def)
qed

text \<open>A line of the positions block ends with its newline.\<close>

lemma sem_frame_line:
  assumes "sem u frame_line c c'"
  shows "\<exists>w. moved c (w @ [CHR ''\<newline>'']) c' \<and> groups c' = groups c"
proof -
  from assms obtain c1 c2 where c: "sem u (Alt (cat [Star space,
                    Alt (cat [Plus alpha, Star alnum, Times 3 frame_number])
                        (Cls [Ch CHR ''#'']),
                    Star Dot]) (Star space)) c c1" "sem u nl c1 c2" "sem u Eps c2 c'"
    by (auto simp: frame_line_def elim!: sem_SeqE)
  from c(3) have e: "c' = c2" by (auto elim: sem_EpsE)
  from sem_span [OF c(1)] obtain w where w: "moved c w c1" by blast
  have "grp_free frame_line"
    by (simp add: frame_line_def frame_number_def expo_def space_def alpha_def alnum_def digit_def
        dot_def nl_def)
  from sem_grp_free [OF assms this] have "groups c' = groups c" .
  with w sem_nl [OF c(2)] e show ?thesis
    by (blast intro: moved_trans)
qed

lemma sem_Plus_frame_line:
  assumes "sem u (Plus frame_line) c c'"
  shows "\<exists>w. moved c (w @ [CHR ''\<newline>'']) c' \<and> groups c' = groups c"
proof -
  from assms obtain c1 where c1: "sem u frame_line c c1" "sem u (Star frame_line) c1 c'"
    by (auto elim: sem_PlusE)
  have "\<exists>w. moved c (w @ [CHR ''\<newline>'']) c' \<and> groups c' = groups c"
  proof (rule sem_Star_invariant [OF c1(2)])
    show "\<exists>w. moved c (w @ [CHR ''\<newline>'']) c1 \<and> groups c1 = groups c"
      by (rule sem_frame_line [OF c1(1)])
  next
    fix d1 d2
    assume "\<exists>w. moved c (w @ [CHR ''\<newline>'']) d1 \<and> groups d1 = groups c" and "sem u frame_line d1 d2"
    then obtain w w' where "moved c (w @ [CHR ''\<newline>'']) d1" "groups d1 = groups c"
      "moved d1 (w' @ [CHR ''\<newline>'']) d2" "groups d2 = groups d1"
      using sem_frame_line by blast
    then have "moved c ((w @ [CHR ''\<newline>''] @ w') @ [CHR ''\<newline>'']) d2 \<and> groups d2 = groups c"
      using moved_trans by fastforce
    then show "\<exists>w. moved c (w @ [CHR ''\<newline>'']) d2 \<and> groups d2 = groups c" by blast
  qed
  then show ?thesis .
qed

lemma in_digit_range: "in_class u [Rng CHR ''0'' CHR ''9''] x \<Longrightarrow> is_digit x"
  by (simp add: in_class_def is_digit_def)

lemma in_blank: "in_class u [Ch CHR '' '', Ch (CHR 0x09)] x \<Longrightarrow> x = CHR '' '' \<or> x = CHR 0x09"
  by (simp add: in_class_def)

lemma frame_split:
  assumes "sem u FRAME_MATCH_REGEX c c'"
  shows "\<exists>c1 c2 c3 c4 c5 c6. at_line_start c \<and> 
    sem u (Star blank) c c1 \<and>
    sem u (Grp ''natoms'' (Plus (Cls [Rng CHR ''0'' CHR ''9'']))) c1 c2 \<and>
    sem u (Star blank) c2 c3 \<and>
    sem u nl c3 c4 \<and>
    sem u (Grp ''comment'' (Star Dot)) c4 c5 \<and>
    sem u nl c5 c6 \<and>
    sem u (Grp ''positions'' (Plus frame_line)) c6 c'"
proof -
  from assms have "sem u (Seq Bol (Seq (Star blank)
      (Seq (Grp ''natoms'' (Plus (Cls [Rng CHR ''0'' CHR ''9''])))
      (Seq (Star blank) (Seq nl (Seq (Grp ''comment'' (Star Dot)) (Seq nl
      (Seq (Grp ''positions'' (Plus frame_line)) Eps)))))))) c c'"
    by (simp add: FRAME_MATCH_REGEX_def)
  then show ?thesis
    apply (elim sem_SeqE sem_BolE sem_EpsE)
    apply hypsubst
    apply (intro exI conjI)
           apply assumption+
    done
qed

lemma frame_shape:
  assumes "sem u FRAME_MATCH_REGEX c c'"
  shows "\<exists>b1 d b2 cm p.
           moved c (b1 @ d @ b2 @ [CHR ''\<newline>''] @ cm @ [CHR ''\<newline>''] @ p @ [CHR ''\<newline>'']) c' \<and>
           groups c' = (''positions'', p @ [CHR ''\<newline>'']) # (''comment'', cm) # (''natoms'', d) # groups c \<and>
           d \<noteq> [] \<and> (\<forall>x\<in>set d. is_digit x) \<and>
           (\<forall>x\<in>set (b1 @ b2). x = CHR '' '' \<or> x = CHR 0x09) \<and>
           CHR ''\<newline>'' \<notin> set cm"
proof -
  from frame_split [OF assms] obtain c1 c2 c3 c4 c5 c6 where
    s1: "sem u (Star blank) c c1" and
    s2: "sem u (Grp ''natoms'' (Plus (Cls [Rng CHR ''0'' CHR ''9'']))) c1 c2" and
    s3: "sem u (Star blank) c2 c3" and
    s4: "sem u nl c3 c4" and
    s5: "sem u (Grp ''comment'' (Star Dot)) c4 c5" and
    s6: "sem u nl c5 c6" and
    s7: "sem u (Grp ''positions'' (Plus frame_line)) c6 c'"
    by blast
  from sem_Star_Cls [OF s1 [unfolded blank_def]] obtain b1
    where b1: "moved c b1 c1" "\<forall>x\<in>set b1. in_class u [Ch CHR '' '', Ch (CHR 0x09)] x" "groups c1 = groups c"
    by blast
  from s2 obtain c2' where c2': "sem u (Plus (Cls [Rng CHR ''0'' CHR ''9''])) c1 c2'"
    "c2 = c2'\<lparr>groups := (''natoms'', captured c1 c2') # groups c2'\<rparr>"
    by (rule sem_GrpE)
  from sem_Plus_Cls [OF c2'(1)] obtain d
    where d: "moved c1 d c2'" "d \<noteq> []" "\<forall>x\<in>set d. in_class u [Rng CHR ''0'' CHR ''9''] x" "groups c2' = groups c1"
    by blast
  from d(1) c2'(2) have d2: "moved c1 d c2" "groups c2 = (''natoms'', d) # groups c1"
    by (simp_all add: moved_captured d(4))
  from sem_Star_Cls [OF s3 [unfolded blank_def]] obtain b2
    where b2: "moved c2 b2 c3" "\<forall>x\<in>set b2. in_class u [Ch CHR '' '', Ch (CHR 0x09)] x" "groups c3 = groups c2"
    by blast
  from sem_nl [OF s4] have n4: "moved c3 [CHR ''\<newline>''] c4" "groups c4 = groups c3" by simp_all
  from s5 obtain c5' where c5': "sem u (Star Dot) c4 c5'"
    "c5 = c5'\<lparr>groups := (''comment'', captured c4 c5') # groups c5'\<rparr>"
    by (rule sem_GrpE)
  from sem_Star_Dot [OF c5'(1)] obtain cm
    where cm: "moved c4 cm c5'" "CHR ''\<newline>'' \<notin> set cm" "groups c5' = groups c4" by blast
  from cm(1) c5'(2) have cm5: "moved c4 cm c5" "groups c5 = (''comment'', cm) # groups c4"
    by (simp_all add: moved_captured cm(3))
  from sem_nl [OF s6] have n6: "moved c5 [CHR ''\<newline>''] c6" "groups c6 = groups c5" by simp_all
  from s7 obtain c7' where c7': "sem u (Plus frame_line) c6 c7'"
    "c' = c7'\<lparr>groups := (''positions'', captured c6 c7') # groups c7'\<rparr>"
    by (rule sem_GrpE)
  from sem_Plus_frame_line [OF c7'(1)] obtain p
    where p: "moved c6 (p @ [CHR ''\<newline>'']) c7'" "groups c7' = groups c6" by blast
  from p(1) c7'(2) have p7: "moved c6 (p @ [CHR ''\<newline>'']) c'"
    "groups c' = (''positions'', p @ [CHR ''\<newline>'']) # groups c6"
    by (simp_all add: moved_captured p(2))
  note t = moved_trans
  have "moved c (b1 @ d @ b2 @ [CHR ''\<newline>''] @ cm @ [CHR ''\<newline>''] @ p @ [CHR ''\<newline>'']) c'"
    by (rule t [OF b1(1) t [OF d2(1) t [OF b2(1) t [OF n4(1) t [OF cm5(1) t [OF n6(1) p7(1)]]]]]])
  moreover have "groups c' = (''positions'', p @ [CHR ''\<newline>'']) # (''comment'', cm) # (''natoms'', d) # groups c"
    by (simp only: p7(2) n6(2) cm5(2) n4(2) b2(3) d2(2) b1(3))
  moreover have "\<forall>x\<in>set d. is_digit x"
    using d(3) in_digit_range by blast
  moreover have "\<forall>x\<in>set (b1 @ b2). x = CHR '' '' \<or> x = CHR 0x09"
  proof
    fix x assume "x \<in> set (b1 @ b2)"
    then have "x \<in> set b1 \<or> x \<in> set b2" by simp
    with b1(2) b2(2) have "in_class u [Ch CHR '' '', Ch (CHR 0x09)] x" by blast
    then show "x = CHR '' '' \<or> x = CHR 0x09" by (rule in_blank)
  qed
  ultimately show ?thesis
    using d(2) cm(2) by (intro exI [of _ b1] exI [of _ d] exI [of _ b2] exI [of _ cm] exI [of _ p] conjI)
qed

lemma match_at_sem: "match_at u r c = Some c' \<Longrightarrow> sem u r c c'"
  using run_sound [of u r Some c c'] by (auto simp: match_at_def)

lemma frame_match_consumes:
  "match_at u FRAME_MATCH_REGEX c = Some c' \<Longrightarrow> length (todo c') < length (todo c)"
proof -
  assume "match_at u FRAME_MATCH_REGEX c = Some c'"
  then have "sem u FRAME_MATCH_REGEX c c'" by (rule match_at_sem)
  from frame_shape [OF this] obtain b1 d b2 cm p where
    m: "moved c (b1 @ d @ b2 @ [CHR ''\<newline>''] @ cm @ [CHR ''\<newline>''] @ p @ [CHR ''\<newline>'']) c'"
    by (elim exE conjE)
  from moved_length [OF m] show ?thesis by simp
qed

lemma cursor_at_self: "groups c = [] \<Longrightarrow> cursor_at (rev (seen c) @ todo c) (length (seen c)) = c"
  by (cases c) (simp add: cursor_at_def)

lemma cursor_at_whole: "p \<le> length s \<Longrightarrow> rev (seen (cursor_at s p)) @ todo (cursor_at s p) = s"
  by (simp add: cursor_at_def)

lemma moved_whole: "moved c w c' \<Longrightarrow> rev (seen c') @ todo c' = rev (seen c) @ todo c"
  by (simp add: moved_def)

text \<open>
  What the scan returns, for a pattern whose matches consume something: every match is the
  match at its start, the matches follow one another without overlap, and at no position
  outside them does the pattern match.
\<close>

lemma finditer_from_spec:
  "(\<forall>c c'. match_at u r c = Some c' \<longrightarrow> length (todo c') < length (todo c)) \<Longrightarrow>
         groups c = [] \<Longrightarrow>
         (\<forall>m\<in>set (finditer_from u r c).
            length (seen c) \<le> m_start m \<and> m_start m < m_end m \<and>
            m_end m \<le> length (rev (seen c) @ todo c) \<and>
            (\<exists>c'. match_at u r (cursor_at (rev (seen c) @ todo c) (m_start m)) = Some c' \<and>
                  m_end m = length (seen c') \<and> m_groups m = groups c')) \<and>
         sorted_wrt (\<lambda>a b. m_end a \<le> m_start b) (finditer_from u r c) \<and>
         (\<forall>p. length (seen c) \<le> p \<and> p \<le> length (rev (seen c) @ todo c) \<and>
              (\<forall>m\<in>set (finditer_from u r c). p < m_start m \<or> m_end m \<le> p) \<longrightarrow>
              match_at u r (cursor_at (rev (seen c) @ todo c) p) = None)"
proof (induction u r c rule: finditer_from.induct)
  case (1 u r c)
  note ne = "1.prems"(1) [rule_format]
  note gc = "1.prems"(2)
  let ?s = "rev (seen c) @ todo c"
  have self: "cursor_at ?s (length (seen c)) = c"
    using gc by (rule cursor_at_self)
  show ?case
  proof (cases "match_at u r c")
    case None
    show ?thesis
    proof (cases "todo c")
      case Nil
      with None self show ?thesis
        by (subst (1 2 3) finditer_from.simps) (auto simp: le_antisym)
    next
      case (Cons x xs)
      let ?c1 = "advance c"
      have g: "groups ?c1 = []" using gc Cons by (simp add: advance_def)
      have w: "rev (seen ?c1) @ todo ?c1 = ?s" using Cons by (simp add: advance_def)
      have l: "length (seen ?c1) = Suc (length (seen c))" using Cons by (simp add: advance_def)
      have eq: "finditer_from u r c = finditer_from u r ?c1"
        using None Cons by (subst finditer_from.simps) simp
      note ih = "1.IH"(1) [OF None Cons "1.prems"(1) g, unfolded w l]
      show ?thesis
        unfolding eq
      proof (intro conjI ballI allI impI)
        fix m assume "m \<in> set (finditer_from u r ?c1)"
        with ih show "length (seen c) \<le> m_start m" "m_start m < m_end m" "m_end m \<le> length ?s"
          "\<exists>c'. match_at u r (cursor_at ?s (m_start m)) = Some c' \<and>
                m_end m = length (seen c') \<and> m_groups m = groups c'"
          by fastforce+
      next
        show "sorted_wrt (\<lambda>a b. m_end a \<le> m_start b) (finditer_from u r ?c1)"
          using ih by blast
      next
        fix p
        assume p: "length (seen c) \<le> p \<and> p \<le> length ?s \<and>
                   (\<forall>m\<in>set (finditer_from u r ?c1). p < m_start m \<or> m_end m \<le> p)"
        show "match_at u r (cursor_at ?s p) = None"
        proof (cases "p = length (seen c)")
          case True
          with self None show ?thesis by simp
        next
          case False
          with p have "Suc (length (seen c)) \<le> p" by simp
          with p ih show ?thesis by blast
        qed
      qed
    qed
  next
    case (Some c')
    then have shorter: "length (todo c') < length (todo c)" by (rule ne)
    let ?c1 = "c'\<lparr>groups := []\<rparr>"
    from match_at_sem [OF Some] obtain w0 where w0: "moved c w0 c'"
      using sem_span by blast
    with shorter have w0ne: "w0 \<noteq> []" by (auto simp: moved_def)
    have w: "rev (seen ?c1) @ todo ?c1 = ?s" using moved_whole [OF w0] by simp
    have l: "length (seen c') = length (seen c) + length w0" using w0 by (simp add: moved_def)
    have le: "length (seen c') \<le> length ?s"
      using w0 by (simp add: moved_def)
    let ?m0 = "\<lparr>m_start = length (seen c), m_end = length (seen c'), m_groups = groups c'\<rparr>"
    have eq: "finditer_from u r c = ?m0 # finditer_from u r ?c1"
      using Some shorter by (subst finditer_from.simps) simp
    have "groups ?c1 = []" by simp
    note ih0 = "1.IH"(2) [OF Some shorter "1.prems"(1) this, unfolded w]
    note ih = ih0 [simplified]
    show ?thesis
      unfolding eq
    proof (intro conjI ballI allI impI)
      fix m assume m: "m \<in> set (?m0 # finditer_from u r ?c1)"
      show "length (seen c) \<le> m_start m"
      proof (cases "m = ?m0")
        case True then show ?thesis by simp
      next
        case False
        with m have "m \<in> set (finditer_from u r ?c1)" by simp
        with ih have "length (seen c') \<le> m_start m" by blast
        with l show ?thesis by simp
      qed
      show "m_start m < m_end m"
      proof (cases "m = ?m0")
        case True with l w0ne show ?thesis by simp
      next
        case False
        with m have "m \<in> set (finditer_from u r ?c1)" by simp
        with ih show ?thesis by blast
      qed
      show "m_end m \<le> length ?s"
      proof (cases "m = ?m0")
        case True with le show ?thesis by simp
      next
        case False
        with m have "m \<in> set (finditer_from u r ?c1)" by simp
        with ih show ?thesis by simp
      qed
      show "\<exists>c'. match_at u r (cursor_at ?s (m_start m)) = Some c' \<and>
                m_end m = length (seen c') \<and> m_groups m = groups c'"
      proof (cases "m = ?m0")
        case True with self Some show ?thesis by simp
      next
        case False
        with m have "m \<in> set (finditer_from u r ?c1)" by simp
        with ih show ?thesis by simp
      qed
    next
      have "m_end ?m0 \<le> m_start m" if "m \<in> set (finditer_from u r ?c1)" for m
        using ih that by simp
      moreover have "sorted_wrt (\<lambda>a b. m_end a \<le> m_start b) (finditer_from u r ?c1)"
        using ih by blast
      ultimately show "sorted_wrt (\<lambda>a b. m_end a \<le> m_start b) (?m0 # finditer_from u r ?c1)"
        by simp
    next
      fix p
      assume p: "length (seen c) \<le> p \<and> p \<le> length ?s \<and>
                 (\<forall>m\<in>set (?m0 # finditer_from u r ?c1). p < m_start m \<or> m_end m \<le> p)"
      then have "length (seen ?c1) \<le> p \<and> p \<le> length ?s \<and>
                 (\<forall>m\<in>set (finditer_from u r ?c1). p < m_start m \<or> m_end m \<le> p)"
        by auto
      then show "match_at u r (cursor_at ?s p) = None"
        by (rule ih0 [THEN conjunct2, THEN conjunct2, rule_format])
    qed
  qed
qed

lemma finditer_spec:
  assumes ne: "\<And>c c'. match_at u r c = Some c' \<Longrightarrow> length (todo c') < length (todo c)"
  shows "(\<forall>m\<in>set (finditer u r s).
            m_start m < m_end m \<and> m_end m \<le> length s \<and>
            (\<exists>c'. match_at u r (cursor_at s (m_start m)) = Some c' \<and>
                  m_end m = length (seen c') \<and> m_groups m = groups c')) \<and>
         sorted_wrt (\<lambda>a b. m_end a \<le> m_start b) (finditer u r s) \<and>
         (\<forall>p. p \<le> length s \<and> (\<forall>m\<in>set (finditer u r s). p < m_start m \<or> m_end m \<le> p) \<longrightarrow>
              match_at u r (cursor_at s p) = None)"
  using finditer_from_spec [of u r "start s"] ne
  by (simp add: finditer_def start_def)

lemma frame_scan:
  "(\<forall>m\<in>set (finditer u FRAME_MATCH_REGEX s).
            m_start m < m_end m \<and> m_end m \<le> length s \<and>
            (\<exists>c'. match_at u FRAME_MATCH_REGEX (cursor_at s (m_start m)) = Some c' \<and>
                  m_end m = length (seen c') \<and> m_groups m = groups c')) \<and>
         sorted_wrt (\<lambda>a b. m_end a \<le> m_start b) (finditer u FRAME_MATCH_REGEX s) \<and>
         (\<forall>p. p \<le> length s \<and>
              (\<forall>m\<in>set (finditer u FRAME_MATCH_REGEX s). p < m_start m \<or> m_end m \<le> p) \<longrightarrow>
              match_at u FRAME_MATCH_REGEX (cursor_at s p) = None)"
  by (rule finditer_spec) (rule frame_match_consumes)

lemma frame_match_shape:
  assumes "m \<in> set (finditer u FRAME_MATCH_REGEX s)"
  shows "\<exists>b1 d b2 cm p.
           matched_text s m = b1 @ d @ b2 @ [CHR ''\<newline>''] @ cm @ [CHR ''\<newline>''] @ p @ [CHR ''\<newline>''] \<and>
           m_groups m = [(''positions'', p @ [CHR ''\<newline>'']), (''comment'', cm), (''natoms'', d)] \<and>
           d \<noteq> [] \<and> (\<forall>x\<in>set d. is_digit x) \<and>
           (\<forall>x\<in>set (b1 @ b2). x = CHR '' '' \<or> x = CHR 0x09) \<and>
           CHR ''\<newline>'' \<notin> set cm \<and>
           m_start m < m_end m \<and> m_end m \<le> length s \<and>
           take (m_end m) s = take (m_start m) s @ matched_text s m"
proof -
  from frame_scan [of u s, THEN conjunct1, rule_format, OF assms]
  obtain c' where m: "m_start m < m_end m" "m_end m \<le> length s"
    "match_at u FRAME_MATCH_REGEX (cursor_at s (m_start m)) = Some c'"
    "m_end m = length (seen c')" "m_groups m = groups c'"
    by (elim exE conjE)
  let ?c = "cursor_at s (m_start m)"
  from frame_shape [OF match_at_sem [OF m(3)]] obtain b1 d b2 cm p where
    sh: "moved ?c (b1 @ d @ b2 @ [CHR ''\<newline>''] @ cm @ [CHR ''\<newline>''] @ p @ [CHR ''\<newline>'']) c'"
      "groups c' = (''positions'', p @ [CHR ''\<newline>'']) # (''comment'', cm) # (''natoms'', d) # groups ?c"
      "d \<noteq> []" "\<forall>x\<in>set d. is_digit x" "\<forall>x\<in>set (b1 @ b2). x = CHR '' '' \<or> x = CHR 0x09"
      "CHR ''\<newline>'' \<notin> set cm"
    by (elim exE conjE)
  define w where "w = b1 @ d @ b2 @ [CHR ''\<newline>''] @ cm @ [CHR ''\<newline>''] @ p @ [CHR ''\<newline>'']"
  from m(1) m(2) have st: "m_start m \<le> length s" by simp
  from sh(1) have d: "drop (m_start m) s = w @ todo c'" and sn: "seen c' = rev w @ rev (take (m_start m) s)"
    unfolding moved_def cursor_at_def w_def by simp_all
  from sn st have len: "m_end m = m_start m + length w"
    unfolding m(4) by simp
  then have mt': "matched_text s m = w"
    unfolding matched_text_def using d by simp
  have "take (m_end m) s = take (m_start m) s @ take (length w) (drop (m_start m) s)"
    unfolding len by (simp add: take_add)
  with d have tk: "take (m_end m) s = take (m_start m) s @ matched_text s m"
    unfolding mt' by simp
  note mt = mt' [unfolded w_def]
  have g: "m_groups m = [(''positions'', p @ [CHR ''\<newline>'']), (''comment'', cm), (''natoms'', d)]"
    unfolding m(5) sh(2) by (simp add: cursor_at_def)
  from mt g sh(3-6) m(1,2) tk show ?thesis
    by (intro exI [of _ b1] exI [of _ d] exI [of _ b2] exI [of _ cm] exI [of _ p] conjI)
qed

lemma int_of_digits: "d \<noteq> [] \<Longrightarrow> \<forall>x\<in>set d. is_digit x \<Longrightarrow> int_of d = Inr (digits_value 0 d)"
  by (simp add: int_of_def list_all_iff)

lemma frame_of_match:
  assumes "m \<in> set (finditer u FRAME_MATCH_REGEX s)"
  shows "frame_of u m =
           (case (if u then Inr (text_of (mgroup m ''comment'')) else decode (mgroup m ''comment'')) of
              Inl e \<Rightarrow> Inl e
            | Inr c \<Rightarrow> Inr (digits_value 0 (mgroup m ''natoms''), c,
                 BlockIterator u (finditer u POS_MATCH_REGEX (mgroup m ''positions''))
                   (digits_value 0 (mgroup m ''natoms''))))"
proof -
  from frame_match_shape [OF assms] obtain b1 d b2 cm p where
    g: "m_groups m = [(''positions'', p @ [CHR ''\<newline>'']), (''comment'', cm), (''natoms'', d)]"
    and d: "d \<noteq> []" "\<forall>x\<in>set d. is_digit x"
    by (elim exE conjE)
  from g have "d = mgroup m ''natoms''" by (simp add: mgroup_def)
  with int_of_digits [OF d]
  have "int_of (mgroup m ''natoms'') = Inr (digits_value 0 (mgroup m ''natoms''))" by simp
  then show ?thesis
    by (simp add: frame_of_def)
qed

lemma frames_of_scan:
  "frames_of u ms =
     map (frame_of u) (takeWhile (\<lambda>m. \<not> isl (frame_of u m)) ms) @
     (case dropWhile (\<lambda>m. \<not> isl (frame_of u m)) ms of [] \<Rightarrow> [] | m # r \<Rightarrow> [frame_of u m])"
proof (induction ms)
  case Nil
  show ?case by simp
next
  case (Cons m ms)
  show ?case
  proof (cases "frame_of u m")
    case (Inl e)
    then show ?thesis by simp
  next
    case (Inr f)
    with Cons show ?thesis by simp
  qed
qed

section \<open>The claims\<close>

text \<open>
  C1. The scenario of the specification parses to its one record, but not every well-formed
  input gives one record per frame. In the frame pattern the alternative of the repeated number
  group separates \<^verbatim>\<open>\s+ [\- | \+ ]? (\d* [\.] \d+)\<close> from \<^verbatim>\<open>(\d+ [\.]? \d*) ([E | e][+|-]?\d+)?\<close>:
  a number without a fraction is accepted only where no white space stands before it. So the line
  \<^verbatim>\<open>C 1 2 3\<close>, which the position pattern matches, is no line of a positions block: the frame
  \<^verbatim>\<open>1\<close>, \<^verbatim>\<open>c\<close>, \<^verbatim>\<open>C 1 2 3\<close> is not found and \<^verbatim>\<open>parse\<close> returns the empty list, and of two frames
  the first of which is written that way only the second is returned.
\<close>

theorem integer_coordinates_lose_frame:
  "map m_groups (finditer True POS_MATCH_REGEX ''C 1 2 3\<newline>'') =
     [[(''z'', ''3''), (''y'', ''2''), (''x'', ''1''), (''sym'', ''C'')]] \<and>
   finditer True FRAME_MATCH_REGEX ''1\<newline>c\<newline>C 1 2 3\<newline>'' = [] \<and>
   parse (Text ''1\<newline>c\<newline>C 1 2 3\<newline>'') = Inr [] \<and>
   parse (Text ''1\<newline>a\<newline>C 1 2 3\<newline>1\<newline>b\<newline>H 1.0 2.0 3.0\<newline>'') =
     Inr [\<lparr>natoms = 1, comment = text_of ''b'', atoms = [(PyStr (text_of ''H''), (1, 2, 3))]\<rparr>] \<and>
   parse (Text ''3\<newline>frame one\<newline>C 0.0 0.0 0.0\<newline>H 1.0 0.0 0.0\<newline>H 0.0 1.0 0.0\<newline>'') =
     Inr [\<lparr>natoms = 3, comment = text_of ''frame one'',
            atoms = [(PyStr (text_of ''C''), (0, 0, 0)),
                     (PyStr (text_of ''H''), (1, 0, 0)),
                     (PyStr (text_of ''H''), (0, 1, 0))]\<rparr>]"
  by (intro conjI; code_simp)

text \<open>
  C2. A frame that declares 2 atoms and holds the one position line \<^verbatim>\<open>C 1.0 2.0 3.0 4\<close>: the
  position pattern finds one match, fewer than declared, and \<^verbatim>\<open>list(atoms)\<close> raises the
  \<^verbatim>\<open>ValueError\<close> of \<^verbatim>\<open>float\<close> on the group \<^verbatim>\<open>z\<close>, which holds \<^verbatim>\<open>3.0 4\<close>, and not the count
  mismatch. With the line of the specification's scenario, \<^verbatim>\<open>C 0.0 0.0 0.0\<close>, it raises the
  \<^verbatim>\<open>TypeError\<close> "smaller" that names 1 found and 2 declared.
\<close>

theorem short_frame_value_error:
  "parse_iter (Text ''2\<newline>bad\<newline>C 1.0 2.0 3.0 4\<newline>'') =
     [Inr (2, text_of ''bad'',
           BlockIterator True (finditer True POS_MATCH_REGEX ''C 1.0 2.0 3.0 4\<newline>'') 2)] \<and>
   length (finditer True POS_MATCH_REGEX ''C 1.0 2.0 3.0 4\<newline>'') = 1 \<and>
   list_of (BlockIterator True (finditer True POS_MATCH_REGEX ''C 1.0 2.0 3.0 4\<newline>'') 2) =
     Inl (ValueError_float ''3.0 4'') \<and>
   parse_iter (Text ''2\<newline>bad\<newline>C 0.0 0.0 0.0\<newline>'') =
     [Inr (2, text_of ''bad'',
           BlockIterator True (finditer True POS_MATCH_REGEX ''C 0.0 0.0 0.0\<newline>'') 2)] \<and>
   list_of (BlockIterator True (finditer True POS_MATCH_REGEX ''C 0.0 0.0 0.0\<newline>'') 2) =
     Inl (TypeError_smaller 1 2)"
  by (intro conjI; code_simp)

text \<open>
  C3. For every frame that declares \<open>n\<close> atoms and whose block holds more than \<open>n\<close> matches of
  the position pattern, the pull number \<open>n + 1\<close> raises the \<^verbatim>\<open>TypeError\<close> "larger": its outcome
  is the error, so the extra entry is not yielded.
\<close>

theorem extra_entry_raises:
  assumes "Inr (n, c, b) \<in> set (parse_iter inp)" and "n < length (b_it b)"
  shows "fst (BlockIterator_next (pulls n b)) = Raise (TypeError_larger (n + 1) n)"
proof -
  from assms(1) have "b_natoms b = n" "b_catom b = 0" by (auto dest: parse_iter_frame)
  with assms(2) pull_beyond [of n b] show ?thesis by simp
qed

theorem extra_entry_raises_witness:
  "Inr (1, text_of ''c'', BlockIterator True (finditer True POS_MATCH_REGEX ''C 0.0 0.0 0.0\<newline>H 1.0 0.0 0.0\<newline>'') 1)
     \<in> set (parse_iter (Text ''1\<newline>c\<newline>C 0.0 0.0 0.0\<newline>H 1.0 0.0 0.0\<newline>'')) \<and>
   length (b_it (BlockIterator True (finditer True POS_MATCH_REGEX ''C 0.0 0.0 0.0\<newline>H 1.0 0.0 0.0\<newline>'') 1)) = 2 \<and>
   fst (BlockIterator_next (pulls 1
      (BlockIterator True (finditer True POS_MATCH_REGEX ''C 0.0 0.0 0.0\<newline>H 1.0 0.0 0.0\<newline>'') 1))) =
     Raise (TypeError_larger 2 1)"
proof -
  let ?b = "BlockIterator True (finditer True POS_MATCH_REGEX ''C 0.0 0.0 0.0\<newline>H 1.0 0.0 0.0\<newline>'') 1"
  have f: "Inr (1, text_of ''c'', ?b) \<in> set (parse_iter (Text ''1\<newline>c\<newline>C 0.0 0.0 0.0\<newline>H 1.0 0.0 0.0\<newline>''))"
    by code_simp
  have l: "length (b_it ?b) = 2" by code_simp
  then have "1 < length (b_it ?b)" by simp
  from extra_entry_raises [OF f this] f l show ?thesis by simp
qed

text \<open>
  C4. A frame that declares 3 atoms and holds two position lines, the first of them
  \<^verbatim>\<open>C 1.0 2.0 3.0 4\<close>: the first pull, two pulls before the one that finds the matches
  exhausted, raises the \<^verbatim>\<open>ValueError\<close> of \<^verbatim>\<open>float\<close> on \<^verbatim>\<open>3.0 4\<close>.
\<close>

theorem early_pull_value_error:
  "parse_iter (Text ''3\<newline>bad\<newline>C 1.0 2.0 3.0 4\<newline>H 1.0 2.0 3.0\<newline>'') =
     [Inr (3, text_of ''bad'',
           BlockIterator True
             (finditer True POS_MATCH_REGEX ''C 1.0 2.0 3.0 4\<newline>H 1.0 2.0 3.0\<newline>'') 3)] \<and>
   length (finditer True POS_MATCH_REGEX ''C 1.0 2.0 3.0 4\<newline>H 1.0 2.0 3.0\<newline>'') = 2 \<and>
   fst (BlockIterator_next
          (BlockIterator True
             (finditer True POS_MATCH_REGEX ''C 1.0 2.0 3.0 4\<newline>H 1.0 2.0 3.0\<newline>'') 3)) =
     Raise (ValueError_float ''3.0 4'')"
  by (intro conjI; code_simp)

text \<open>
  C5. Two frames, the first with the position line \<^verbatim>\<open>C 1.0 2.0 3.0 4\<close> and the second with one
  position line for 2 declared atoms: \<^verbatim>\<open>parse\<close> returns no list, but the error it raises is the
  \<^verbatim>\<open>ValueError\<close> of \<^verbatim>\<open>float\<close> on \<^verbatim>\<open>3.0 4\<close> in the first frame, not the count mismatch of the
  second. Without the trailing \<^verbatim>\<open>4\<close> the error is the \<^verbatim>\<open>TypeError\<close> "smaller" of the second frame.
\<close>

theorem value_error_hides_mismatch:
  "parse_iter (Text ''1\<newline>ok\<newline>C 1.0 2.0 3.0 4\<newline>2\<newline>bad\<newline>H 1.0 0.0 0.0\<newline>'') =
     [Inr (1, text_of ''ok'',
           BlockIterator True (finditer True POS_MATCH_REGEX ''C 1.0 2.0 3.0 4\<newline>'') 1),
      Inr (2, text_of ''bad'',
           BlockIterator True (finditer True POS_MATCH_REGEX ''H 1.0 0.0 0.0\<newline>'') 2)] \<and>
   length (finditer True POS_MATCH_REGEX ''C 1.0 2.0 3.0 4\<newline>'') = 1 \<and>
   length (finditer True POS_MATCH_REGEX ''H 1.0 0.0 0.0\<newline>'') = 1 \<and>
   parse (Text ''1\<newline>ok\<newline>C 1.0 2.0 3.0 4\<newline>2\<newline>bad\<newline>H 1.0 0.0 0.0\<newline>'') =
     Inl (ValueError_float ''3.0 4'') \<and>
   parse (Text ''1\<newline>ok\<newline>C 1.0 2.0 3.0\<newline>2\<newline>bad\<newline>H 1.0 0.0 0.0\<newline>'') =
     Inl (TypeError_smaller 1 2)"
  by (intro conjI; code_simp)

text \<open>
  C6. The same content as a text and as its UTF-8 bytes does not give the same result. The
  comment of a bytes frame is decoded, its symbols are not: they stay \<^verbatim>\<open>bytes\<close>, which in
  Python 3 are not equal to the \<^verbatim>\<open>str\<close> symbols of the text run. The two runs can also differ in
  what matches: a no-break space (U+00A0) is white space for the text pattern and not for the
  bytes pattern.
\<close>

theorem symbol_of_bytes_stays_bytes:
  "parse (Text ''3\<newline>frame one\<newline>C 0.0 0.0 0.0\<newline>H 1.0 0.0 0.0\<newline>H 0.0 1.0 0.0\<newline>'') =
     Inr [\<lparr>natoms = 3, comment = text_of ''frame one'',
            atoms = [(PyStr (text_of ''C''), (0, 0, 0)),
                     (PyStr (text_of ''H''), (1, 0, 0)),
                     (PyStr (text_of ''H''), (0, 1, 0))]\<rparr>] \<and>
   parse (Buffer (utf8_encode ''3\<newline>frame one\<newline>C 0.0 0.0 0.0\<newline>H 1.0 0.0 0.0\<newline>H 0.0 1.0 0.0\<newline>'')) =
     Inr [\<lparr>natoms = 3, comment = text_of ''frame one'',
            atoms = [(PyBytes ''C'', (0, 0, 0)),
                     (PyBytes ''H'', (1, 0, 0)),
                     (PyBytes ''H'', (0, 1, 0))]\<rparr>] \<and>
   parse (Text (''1\<newline>c\<newline>C'' @ [CHR 0xA0] @ ''1.0 2.0 3.0\<newline>'')) =
     Inr [\<lparr>natoms = 1, comment = text_of ''c'', atoms = [(PyStr (text_of ''C''), (1, 2, 3))]\<rparr>] \<and>
   parse (Buffer (utf8_encode (''1\<newline>c\<newline>C'' @ [CHR 0xA0] @ ''1.0 2.0 3.0\<newline>''))) = Inr []"
  by (intro conjI; code_simp)

text \<open>
  C7. The scan of the frame pattern over the content of every input (a text, a bytes object or a
  mapped file): each match is the match of the pattern at its start, the matches follow each
  other in document order without overlap, and at no position outside the matches does the
  pattern match. What lies between the matches yields nothing and raises nothing: \<^verbatim>\<open>parse_iter\<close>
  yields the frame of each match, in order, up to the first match whose count or comment does not
  convert; there it raises the error of that match and yields nothing more.
\<close>

theorem scan_skips_silently:
  assumes "as_byteorstringlike inp = Inr (s, u)"
  shows "(\<forall>m\<in>set (finditer u FRAME_MATCH_REGEX s).
            m_start m < m_end m \<and> m_end m \<le> length s \<and>
            (\<exists>c'. match_at u FRAME_MATCH_REGEX (cursor_at s (m_start m)) = Some c' \<and>
                  m_end m = length (seen c') \<and> m_groups m = groups c')) \<and>
         sorted_wrt (\<lambda>a b. m_end a \<le> m_start b) (finditer u FRAME_MATCH_REGEX s) \<and>
         (\<forall>p. p \<le> length s \<and>
              (\<forall>m\<in>set (finditer u FRAME_MATCH_REGEX s). p < m_start m \<or> m_end m \<le> p) \<longrightarrow>
              match_at u FRAME_MATCH_REGEX (cursor_at s p) = None) \<and>
         parse_iter inp =
           map (frame_of u)
             (takeWhile (\<lambda>m. \<not> isl (frame_of u m)) (finditer u FRAME_MATCH_REGEX s)) @
           (case dropWhile (\<lambda>m. \<not> isl (frame_of u m)) (finditer u FRAME_MATCH_REGEX s) of
              [] \<Rightarrow> []
            | m # r \<Rightarrow> [frame_of u m])"
proof -
  have "parse_iter inp = frames_of u (finditer u FRAME_MATCH_REGEX s)"
    using assms by (simp add: parse_iter_def)
  then have out: "parse_iter inp =
           map (frame_of u)
             (takeWhile (\<lambda>m. \<not> isl (frame_of u m)) (finditer u FRAME_MATCH_REGEX s)) @
           (case dropWhile (\<lambda>m. \<not> isl (frame_of u m)) (finditer u FRAME_MATCH_REGEX s) of
              [] \<Rightarrow> []
            | m # r \<Rightarrow> [frame_of u m])"
    by (simp only: frames_of_scan [symmetric])
  from frame_scan [of u s] out show ?thesis
    by (intro conjI) (elim conjE, assumption)+
qed

theorem scan_skips_silently_witness:
  "as_byteorstringlike
     (Buffer ''junk\<newline>1\<newline>c\<newline>C 1.0 2.0 3.0\<newline>more junk\<newline>1\<newline>d\<newline>H 1.0 2.0 3.0\<newline>'') =
     Inr (''junk\<newline>1\<newline>c\<newline>C 1.0 2.0 3.0\<newline>more junk\<newline>1\<newline>d\<newline>H 1.0 2.0 3.0\<newline>'', False) \<and>
   finditer False FRAME_MATCH_REGEX
     ''junk\<newline>1\<newline>c\<newline>C 1.0 2.0 3.0\<newline>more junk\<newline>1\<newline>d\<newline>H 1.0 2.0 3.0\<newline>'' =
     [\<lparr>m_start = 5, m_end = 23,
        m_groups = [(''positions'', ''C 1.0 2.0 3.0\<newline>''), (''comment'', ''c''), (''natoms'', ''1'')]\<rparr>,
      \<lparr>m_start = 33, m_end = 51,
        m_groups = [(''positions'', ''H 1.0 2.0 3.0\<newline>''), (''comment'', ''d''), (''natoms'', ''1'')]\<rparr>] \<and>
   match_at False FRAME_MATCH_REGEX
     (cursor_at ''junk\<newline>1\<newline>c\<newline>C 1.0 2.0 3.0\<newline>more junk\<newline>1\<newline>d\<newline>H 1.0 2.0 3.0\<newline>'' 23) = None \<and>
   parse_iter (Buffer ''junk\<newline>1\<newline>c\<newline>C 1.0 2.0 3.0\<newline>more junk\<newline>1\<newline>d\<newline>H 1.0 2.0 3.0\<newline>'') =
     [Inr (1, text_of ''c'', BlockIterator False (finditer False POS_MATCH_REGEX ''C 1.0 2.0 3.0\<newline>'') 1),
      Inr (1, text_of ''d'', BlockIterator False (finditer False POS_MATCH_REGEX ''H 1.0 2.0 3.0\<newline>'') 1)]"
proof -
  let ?s = "''junk\<newline>1\<newline>c\<newline>C 1.0 2.0 3.0\<newline>more junk\<newline>1\<newline>d\<newline>H 1.0 2.0 3.0\<newline>''"
  let ?ms = "[\<lparr>m_start = 5, m_end = 23,
        m_groups = [(''positions'', ''C 1.0 2.0 3.0\<newline>''), (''comment'', ''c''), (''natoms'', ''1'')]\<rparr>,
      \<lparr>m_start = 33, m_end = 51,
        m_groups = [(''positions'', ''H 1.0 2.0 3.0\<newline>''), (''comment'', ''d''), (''natoms'', ''1'')]\<rparr>]"
  have a: "as_byteorstringlike (Buffer ?s) = Inr (?s, False)"
    by (simp add: as_byteorstringlike_def)
  have f: "finditer False FRAME_MATCH_REGEX ?s = ?ms"
    by code_simp
  have fr: "map (frame_of False) (takeWhile (\<lambda>m. \<not> isl (frame_of False m)) ?ms) @
           (case dropWhile (\<lambda>m. \<not> isl (frame_of False m)) ?ms of [] \<Rightarrow> [] | m # r \<Rightarrow> [frame_of False m]) =
     [Inr (1, text_of ''c'', BlockIterator False (finditer False POS_MATCH_REGEX ''C 1.0 2.0 3.0\<newline>'') 1),
      Inr (1, text_of ''d'', BlockIterator False (finditer False POS_MATCH_REGEX ''H 1.0 2.0 3.0\<newline>'') 1)]"
    by code_simp
  have h: "23 \<le> length ?s \<and>
        (\<forall>m\<in>set (finditer False FRAME_MATCH_REGEX ?s). 23 < m_start m \<or> m_end m \<le> 23)"
    unfolding f by simp
  note th = scan_skips_silently [OF a]
  from th have "\<forall>p. p \<le> length ?s \<and>
          (\<forall>m\<in>set (finditer False FRAME_MATCH_REGEX ?s). p < m_start m \<or> m_end m \<le> p) \<longrightarrow>
          match_at False FRAME_MATCH_REGEX (cursor_at ?s p) = None"
    by (elim conjE)
  from this [rule_format, OF h]
  have n: "match_at False FRAME_MATCH_REGEX (cursor_at ?s 23) = None" .
  from th have "parse_iter (Buffer ?s) =
           map (frame_of False)
             (takeWhile (\<lambda>m. \<not> isl (frame_of False m)) (finditer False FRAME_MATCH_REGEX ?s)) @
           (case dropWhile (\<lambda>m. \<not> isl (frame_of False m)) (finditer False FRAME_MATCH_REGEX ?s) of
              [] \<Rightarrow> []
            | m # r \<Rightarrow> [frame_of False m])"
    by (elim conjE)
  then have p: "parse_iter (Buffer ?s) =
     [Inr (1, text_of ''c'', BlockIterator False (finditer False POS_MATCH_REGEX ''C 1.0 2.0 3.0\<newline>'') 1),
      Inr (1, text_of ''d'', BlockIterator False (finditer False POS_MATCH_REGEX ''H 1.0 2.0 3.0\<newline>'') 1)]"
    unfolding f fr .
  from a f n p show ?thesis by (intro conjI)
qed

text \<open>
  The frames of the matching spans are not always all yielded. In the bytes below the pattern
  matches two spans; the comment of the first is the byte \<^verbatim>\<open>0xFF\<close>, which is not UTF-8, and
  \<^verbatim>\<open>parse_iter\<close> raises the \<^verbatim>\<open>UnicodeDecodeError\<close> of \<^verbatim>\<open>decode\<close> without a frame for either span.
\<close>

theorem undecodable_comment_ends_scan:
  "map m_start
     (finditer False FRAME_MATCH_REGEX
        (''junk\<newline>1\<newline>'' @ [CHR 0xFF] @ ''\<newline>C 1.0 2.0 3.0\<newline>more junk\<newline>1\<newline>d\<newline>H 1.0 2.0 3.0\<newline>'')) =
     [5, 33] \<and>
   map m_end
     (finditer False FRAME_MATCH_REGEX
        (''junk\<newline>1\<newline>'' @ [CHR 0xFF] @ ''\<newline>C 1.0 2.0 3.0\<newline>more junk\<newline>1\<newline>d\<newline>H 1.0 2.0 3.0\<newline>'')) =
     [23, 51] \<and>
   parse_iter
     (Buffer (''junk\<newline>1\<newline>'' @ [CHR 0xFF] @ ''\<newline>C 1.0 2.0 3.0\<newline>more junk\<newline>1\<newline>d\<newline>H 1.0 2.0 3.0\<newline>'')) =
     [Inl UnicodeDecodeError]"
  by (intro conjI; code_simp)

text \<open>
  C8. Trailing content is not always ignored. The class \<^verbatim>\<open>[E | e]\<close> of the exponent holds the
  space, so a number after the third coordinate is taken into the group \<^verbatim>\<open>z\<close> as an exponent:
  for the line \<^verbatim>\<open>C 1.0 2.0 3.0 4\<close> the group is \<^verbatim>\<open>3.0 4\<close>, and \<^verbatim>\<open>float\<close> raises a
  \<^verbatim>\<open>ValueError\<close> on it.
\<close>

theorem trailing_number_joins_z:
  "parse (Text ''1\<newline>c\<newline>C 1.0 2.0 3.0\<newline>'') =
     Inr [\<lparr>natoms = 1, comment = text_of ''c'', atoms = [(PyStr (text_of ''C''), (1, 2, 3))]\<rparr>] \<and>
   map m_groups (finditer True POS_MATCH_REGEX ''C 1.0 2.0 3.0 4\<newline>'') =
     [[(''z'', ''3.0 4''), (''y'', ''2.0''), (''x'', ''1.0''), (''sym'', ''C'')]] \<and>
   parse (Text ''1\<newline>c\<newline>C 1.0 2.0 3.0 4\<newline>'') = Inl (ValueError_float ''3.0 4'')"
  by (intro conjI; code_simp)

text \<open>
  C9. With coordinates written with a fraction, a blank line, a \<^verbatim>\<open>#\<close> line and a closing empty line
  among two coordinate lines leave the record as it is without them. It is not so for every
  frame. The one coordinate line \<^verbatim>\<open>C 1 2 3\<close> is no line of a positions block for the frame
  pattern (see C1): the frame \<^verbatim>\<open>1\<close>, \<^verbatim>\<open>c\<close>, \<^verbatim>\<open>C 1 2 3\<close> alone is not found, and with a line
  \<^verbatim>\<open># note\<close> before the coordinate line it is found with that line as its whole block, so that
  \<^verbatim>\<open>parse\<close> raises the \<^verbatim>\<open>TypeError\<close> "smaller" for 0 entries of 1. And with the coordinate line
  \<^verbatim>\<open>C 1.0 2.0 3.0 4\<close> (see C8) the frame with interleaved lines raises the \<^verbatim>\<open>ValueError\<close> of
  \<^verbatim>\<open>float\<close>.
\<close>

theorem comment_line_changes_result:
  "parse (Text ''2\<newline>c\<newline>C 1.0 2.0 3.0\<newline>H 1.0 2.0 3.0\<newline>'') =
     Inr [\<lparr>natoms = 2, comment = text_of ''c'',
            atoms = [(PyStr (text_of ''C''), (1, 2, 3)), (PyStr (text_of ''H''), (1, 2, 3))]\<rparr>] \<and>
   parse (Text ''2\<newline>c\<newline>C 1.0 2.0 3.0\<newline>  \<newline>#H 9.0 9.0 9.0\<newline>H 1.0 2.0 3.0\<newline>\<newline>'') =
     Inr [\<lparr>natoms = 2, comment = text_of ''c'',
            atoms = [(PyStr (text_of ''C''), (1, 2, 3)), (PyStr (text_of ''H''), (1, 2, 3))]\<rparr>] \<and>
   parse (Text ''1\<newline>c\<newline>C 1 2 3\<newline>'') = Inr [] \<and>
   map m_groups (finditer True FRAME_MATCH_REGEX ''1\<newline>c\<newline># note\<newline>C 1 2 3\<newline>'') =
     [[(''positions'', ''# note\<newline>''), (''comment'', ''c''), (''natoms'', ''1'')]] \<and>
   parse (Text ''1\<newline>c\<newline># note\<newline>C 1 2 3\<newline>'') = Inl (TypeError_smaller 0 1) \<and>
   parse (Text ''2\<newline>c\<newline>C 1.0 2.0 3.0 4\<newline>\<newline># note\<newline>H 1.0 2.0 3.0\<newline>'') =
     Inl (ValueError_float ''3.0 4'')"
  by (intro conjI; code_simp)

text \<open>
  C10. Every match of the frame pattern is its atom count line, its comment line and its
  positions block, each ended by a newline: the matched text is blanks, the count, blanks, a
  newline, the comment, a newline and the block, and the block is not empty and ends with a
  newline. So whatever stands after the last newline of the content lies outside every match;
  and a match raises nothing but, for bytes, the \<^verbatim>\<open>UnicodeDecodeError\<close> of its comment.
\<close>

theorem frame_needs_newlines:
  assumes "m \<in> set (finditer u FRAME_MATCH_REGEX s)"
  shows "(\<exists>b1 b2. matched_text s m =
            b1 @ mgroup m ''natoms'' @ b2 @ [CHR ''\<newline>''] @ mgroup m ''comment'' @ [CHR ''\<newline>''] @
            mgroup m ''positions'') \<and>
         mgroup m ''positions'' \<noteq> [] \<and> last (mgroup m ''positions'') = CHR ''\<newline>'' \<and>
         (\<forall>t v. s = t @ v \<and> CHR ''\<newline>'' \<notin> set v \<longrightarrow> m_end m \<le> length t) \<and>
         (\<forall>e. frame_of u m = Inl e \<longrightarrow> \<not> u \<and> e = UnicodeDecodeError)"
proof -
  from frame_match_shape [OF assms] obtain b1 d b2 cm p where
    mt: "matched_text s m = b1 @ d @ b2 @ [CHR ''\<newline>''] @ cm @ [CHR ''\<newline>''] @ p @ [CHR ''\<newline>'']"
    and g: "m_groups m = [(''positions'', p @ [CHR ''\<newline>'']), (''comment'', cm), (''natoms'', d)]"
    and le: "m_start m < m_end m" "m_end m \<le> length s"
    and tk: "take (m_end m) s = take (m_start m) s @ matched_text s m"
    by (elim exE conjE)
  from g have gs: "mgroup m ''natoms'' = d" "mgroup m ''comment'' = cm"
    "mgroup m ''positions'' = p @ [CHR ''\<newline>'']"
    by (simp_all add: mgroup_def)
  have shape: "\<exists>b1 b2. matched_text s m =
            b1 @ mgroup m ''natoms'' @ b2 @ [CHR ''\<newline>''] @ mgroup m ''comment'' @ [CHR ''\<newline>''] @
            mgroup m ''positions''"
    unfolding gs mt by (intro exI [of _ b1] exI [of _ b2]) simp
  have pos: "mgroup m ''positions'' \<noteq> []" "last (mgroup m ''positions'') = CHR ''\<newline>''"
    unfolding gs by simp_all
  have tail: "m_end m \<le> length t" if s: "s = t @ v" and v: "CHR ''\<newline>'' \<notin> set v" for t v
  proof (rule ccontr)
    assume "\<not> m_end m \<le> length t"
    then have gt: "length t < m_end m" by simp
    have "last (take (m_end m) s) = CHR ''\<newline>''"
      unfolding tk mt by simp
    moreover have "take (m_end m) s \<noteq> []" using le by auto
    ultimately have "s ! (m_end m - 1) = CHR ''\<newline>''"
      using le by (simp add: last_conv_nth)
    moreover have "s ! (m_end m - 1) = v ! (m_end m - 1 - length t)"
    proof -
      from gt have "\<not> m_end m - 1 < length t" by arith
      then show ?thesis unfolding s by (simp only: nth_append if_False)
    qed
    moreover have "m_end m - 1 - length t < length v"
      using le gt unfolding s by simp
    ultimately have "CHR ''\<newline>'' \<in> set v"
      by (metis nth_mem)
    with v show False by simp
  qed
  have err: "\<not> u \<and> e = UnicodeDecodeError" if "frame_of u m = Inl e" for e
    using that unfolding frame_of_match [OF assms]
    by (auto simp: decode_def split: sum.splits option.splits if_splits)
  from shape pos tail err show ?thesis by blast
qed

theorem frame_needs_newlines_witness:
  "\<lparr>m_start = 0, m_end = 18,
     m_groups = [(''positions'', ''C 1.0 2.0 3.0\<newline>''), (''comment'', ''c''), (''natoms'', ''2'')]\<rparr>
     \<in> set (finditer True FRAME_MATCH_REGEX ''2\<newline>c\<newline>C 1.0 2.0 3.0\<newline>H 1.0 2.0 3.0'') \<and>
   18 \<le> length ''2\<newline>c\<newline>C 1.0 2.0 3.0\<newline>'' \<and>
   finditer True FRAME_MATCH_REGEX ''2\<newline>c\<newline>C 1.0 2.0 3.0\<newline>H 1.0 2.0 3.0'' =
     [\<lparr>m_start = 0, m_end = 18,
        m_groups = [(''positions'', ''C 1.0 2.0 3.0\<newline>''), (''comment'', ''c''), (''natoms'', ''2'')]\<rparr>] \<and>
   finditer True FRAME_MATCH_REGEX ''1\<newline>c\<newline>C 1.0 2.0 3.0'' = []"
proof -
  let ?m = "\<lparr>m_start = 0, m_end = 18,
     m_groups = [(''positions'', ''C 1.0 2.0 3.0\<newline>''), (''comment'', ''c''), (''natoms'', ''2'')]\<rparr>"
  let ?t = "''2\<newline>c\<newline>C 1.0 2.0 3.0\<newline>''"
  let ?v = "''H 1.0 2.0 3.0''"
  have f: "finditer True FRAME_MATCH_REGEX ''2\<newline>c\<newline>C 1.0 2.0 3.0\<newline>H 1.0 2.0 3.0'' = [?m]"
    by code_simp
  then have m: "?m \<in> set (finditer True FRAME_MATCH_REGEX ''2\<newline>c\<newline>C 1.0 2.0 3.0\<newline>H 1.0 2.0 3.0'')"
    by simp
  have e: "finditer True FRAME_MATCH_REGEX ''1\<newline>c\<newline>C 1.0 2.0 3.0'' = []"
    by code_simp
  have s: "''2\<newline>c\<newline>C 1.0 2.0 3.0\<newline>H 1.0 2.0 3.0'' = ?t @ ?v \<and> CHR ''\<newline>'' \<notin> set ?v"
    by simp
  from frame_needs_newlines [OF m]
  have "\<forall>t v. ''2\<newline>c\<newline>C 1.0 2.0 3.0\<newline>H 1.0 2.0 3.0'' = t @ v \<and> CHR ''\<newline>'' \<notin> set v \<longrightarrow>
          m_end ?m \<le> length t"
    by (elim conjE)
  then have "m_end ?m \<le> length ?t" using s by blast
  then have "18 \<le> length ?t" by simp
  with m f e show ?thesis by (intro conjI)
qed

end
